theory Spec2Isabelle
  imports Complex_Main
begin

section \<open>Exceptions and configuration values\<close>

text \<open>
  The code raises one exception class of its own, \<^verbatim>\<open>ToolManagerError(message)\<close>, a subclass
  of \<^verbatim>\<open>RuntimeError\<close>, possibly chained to a cause (\<^verbatim>\<open>raise ... from exc\<close>). Of the exceptions
  that a builder or the MCP client library raises, the code tells apart those of class
  \<^verbatim>\<open>Exception\<close>, which \<^verbatim>\<open>except Exception\<close> catches, from the others
  (\<^verbatim>\<open>asyncio.CancelledError\<close>, \<^verbatim>\<open>KeyboardInterrupt\<close>, \<^verbatim>\<open>SystemExit\<close>, \<^verbatim>\<open>GeneratorExit\<close>),
  which it does not catch; and Python treats \<^verbatim>\<open>StopIteration\<close> specially. \<open>PyException\<close>
  is any other instance of \<^verbatim>\<open>Exception\<close>, \<open>PyBaseException\<close> an exception outside it.
\<close>

datatype exn =
    ToolManagerError string "exn option"
  | RuntimeError string "exn option"
  | StopIteration
  | PyException string
  | PyBaseException string

fun is_Exception :: "exn \<Rightarrow> bool" where
  "is_Exception (PyBaseException c) = False"
| "is_Exception e = True"

text \<open>
  An exception that leaves the body of a coroutine (an \<^verbatim>\<open>async def\<close>): a \<^verbatim>\<open>StopIteration\<close>
  is replaced by \<^verbatim>\<open>RuntimeError("coroutine raised StopIteration")\<close> chained to it (PEP 479);
  any other exception leaves as it is.
\<close>

fun leaving_coroutine :: "exn \<Rightarrow> exn" where
  "leaving_coroutine StopIteration =
     RuntimeError ''coroutine raised StopIteration'' (Some StopIteration)"
| "leaving_coroutine e = e"

definition quoted :: "string \<Rightarrow> string" where
  "quoted s = [CHR 0x27] @ s @ [CHR 0x27]"

text \<open>Values of the server configuration dictionaries; a dictionary is an association list.\<close>

datatype cfg = Str string | StrList "string list" | Dict "(string \<times> cfg) list"

type_synonym config = "(string \<times> cfg) list"

fun dict_set :: "(string \<times> 'v) list \<Rightarrow> string \<Rightarrow> 'v \<Rightarrow> (string \<times> 'v) list" where
  "dict_set [] k v = [(k, v)]"
| "dict_set ((k', v') # d) k v = (if k' = k then (k, v) # d else (k', v') # dict_set d k v)"

fun dict_update :: "(string \<times> 'v) list \<Rightarrow> (string \<times> 'v) list \<Rightarrow> (string \<times> 'v) list" where
  "dict_update d [] = d"
| "dict_update d ((k, v) # other) = dict_update (dict_set d k v) other"

section \<open>Floats\<close>

text \<open>
  \<^verbatim>\<open>time.time()\<close> and \<^verbatim>\<open>cache_ttl\<close> are Python floats, that is binary64 numbers, and line 183
  adds them in binary64. A finite float is modelled by the real number it stands for. The sum
  of two floats is the exact sum rounded to the nearest float, ties to the even significand:
  \<open>rhe\<close> rounds a real to the nearest integer, ties to even; \<open>ulp a\<close> is the distance
  between neighbouring floats at magnitude \<open>a\<close>, \<open>2 ^ (e - 52)\<close> for
  \<open>2 ^ e \<le> a < 2 ^ (e + 1)\<close>, with \<open>e\<close> found by halving or doubling \<open>a\<close> and kept
  within \<open>- 1022 \<dots> 1023\<close> (below \<open>2 ^ - 1022\<close> the floats are subnormal and evenly spaced).
\<close>

definition rhe :: "real \<Rightarrow> int" where
  "rhe r = (let f = \<lfloor>r\<rfloor> in
             if r - of_int f < 1/2 then f
             else if 1/2 < r - of_int f then f + 1
             else if even f then f else f + 1)"

fun halvings :: "nat \<Rightarrow> real \<Rightarrow> nat" where
  "halvings 0 a = 0"
| "halvings (Suc n) a = (if 2 \<le> a then Suc (halvings n (a / 2)) else 0)"

fun doublings :: "nat \<Rightarrow> real \<Rightarrow> nat" where
  "doublings 0 a = 0"
| "doublings (Suc n) a = (if a < 1 then Suc (doublings n (2 * a)) else 0)"

definition ulp :: "real \<Rightarrow> real" where
  "ulp a = (if 1 \<le> a then 2 ^ halvings 1023 a / 2 ^ 52
            else 1 / (2 ^ doublings 1022 a * 2 ^ 52))"

definition round64 :: "real \<Rightarrow> real" where
  "round64 x = sgn x * of_int (rhe (\<bar>x\<bar> / ulp \<bar>x\<bar>)) * ulp \<bar>x\<bar>"

text \<open>A rounded result of magnitude \<open>2 ^ 1024\<close> or more overflows to an infinity.\<close>

definition overflow :: "real \<Rightarrow> bool" where
  "overflow r = (halvings 1024 r = 1024)"

text \<open>The finite floats.\<close>

definition is_double :: "real \<Rightarrow> bool" where
  "is_double c = (round64 c = c \<and> \<not> overflow c \<and> \<not> overflow (- c))"

text \<open>
  A float: finite, an infinity, or not a number. \<open>fadd c d\<close> is \<^verbatim>\<open>c + d\<close> for a finite \<open>c\<close>
  (a clock reading); \<open>fgt x c\<close> is \<^verbatim>\<open>x > c\<close>, false when \<open>x\<close> is not a number; \<open>float_bool\<close>
  is the truth value of a float in \<^verbatim>\<open>if ttl\<close>, false for zero only.
\<close>

datatype pyfloat = Fin real | PInf | NInf | NaN

fun fadd :: "real \<Rightarrow> pyfloat \<Rightarrow> pyfloat" where
  "fadd c (Fin d) =
     (let r = round64 (c + d) in
      if overflow r then PInf else if overflow (- r) then NInf else Fin r)"
| "fadd c PInf = PInf"
| "fadd c NInf = NInf"
| "fadd c NaN = NaN"

fun fgt :: "pyfloat \<Rightarrow> real \<Rightarrow> bool" where
  "fgt (Fin x) c = (c < x)"
| "fgt PInf c = True"
| "fgt NInf c = False"
| "fgt NaN c = False"

fun float_bool :: "pyfloat \<Rightarrow> bool" where
  "float_bool (Fin d) = (d \<noteq> 0)"
| "float_bool x = True"

section \<open>The world outside the manager\<close>

text \<open>The two fields of \<^verbatim>\<open>common.config.settings\<close> that the registry reads.\<close>

record settings =
  dashscope_api_key :: string
  amap_maps_api_key :: string

text \<open>
  Everything a load can read or change outside the manager: the clock \<^verbatim>\<open>time.time()\<close>
  (\<open>now\<close>, the reading in seconds), the settings, the home directory and
  whatever else builders and servers depend on (\<open>ext\<close>). \<open>loads\<close> is a ghost log: the names
  of the providers whose \<^verbatim>\<open>load()\<close> has been executed, oldest first.
\<close>

record 'x world =
  now :: real
  settings :: settings
  home :: string
  loads :: "string list"
  ext :: 'x

text \<open>
  An awaited call: it runs in a world, returns or raises, and leaves a world behind.
\<close>

type_synonym ('a, 'x) action = "'x world \<Rightarrow> (exn + 'a) \<times> 'x world"

section \<open>Providers (tool\_manager.py)\<close>

text \<open>
  \<^verbatim>\<open>ToolProvider\<close> and its two subclasses. The fields of the base class are shared selectors.
  \<open>server_factory\<close> is \<^verbatim>\<open>_server_factory\<close>, evaluated at load time. \<open>build_client\<close> stands for
  \<^verbatim>\<open>_build_client(config)\<close> followed by the client's \<^verbatim>\<open>get_tools()\<close>: the client class
  \<^verbatim>\<open>MultiServerMCPClient\<close> belongs to an external library, so what awaiting it does is a
  parameter (it absorbs \<^verbatim>\<open>_client_kwargs\<close>; constructing the client is taken not to raise).
  A builder returns a sequence or \<^verbatim>\<open>None\<close>. The fields hold what \<^verbatim>\<open>__init__\<close> stores: a
  description that is a string, tags that are a tuple. Builders and clients act on the world
  only; they do not call back into the manager. The outcome \<open>Inl exc\<close> of a builder or a
  client is the exception that calling and awaiting it raises inside \<^verbatim>\<open>_load\<close>.
\<close>

datatype ('t, 'x) ToolProvider =
    MCPToolProvider
      (name: string) (description: string) (tags: "string list") (cache_ttl: "pyfloat option")
      (server_factory: "'x world \<Rightarrow> config option")
      (build_client: "config \<Rightarrow> ('t list, 'x) action")
      (raise_on_error: bool)
  | CallableToolProvider
      (name: string) (description: string) (tags: "string list") (cache_ttl: "pyfloat option")
      (builder: "('t list option, 'x) action")

fun kind :: "('t, 'x) ToolProvider \<Rightarrow> string" where
  "kind (MCPToolProvider n d tg ttl sf bc strict) = ''mcp''"
| "kind (CallableToolProvider n d tg ttl b) = ''python''"

text \<open>
  The method \<^verbatim>\<open>_load\<close> of each subclass. In the first, line 95 catches the exceptions of class
  \<^verbatim>\<open>Exception\<close> only; any other one leaves \<^verbatim>\<open>_load\<close> as it is, in either mode. The second
  catches nothing, and is a coroutine that the builder's exception leaves.
\<close>

fun load_impl :: "('t, 'x) ToolProvider \<Rightarrow> ('t list, 'x) action" where
  "load_impl (MCPToolProvider n d tg ttl sf bc strict) w =
     (case sf w of
        None \<Rightarrow> (Inr [], w)
      | Some config \<Rightarrow>
          if config = [] then (Inr [], w)
          else (case bc config w of
                  (Inr ts, w') \<Rightarrow> (Inr ts, w')
                | (Inl exc, w') \<Rightarrow>
                    if is_Exception exc
                    then (if strict
                          then (Inl (ToolManagerError (''Failed to load tools for '' @ n)
                                       (Some exc)), w')
                          else (Inr [], w'))
                    else (Inl exc, w')))"
| "load_impl (CallableToolProvider n d tg ttl b) w =
     (case b w of
        (Inl exc, w') \<Rightarrow> (Inl (leaving_coroutine exc), w')
      | (Inr result, w') \<Rightarrow> (Inr (case result of None \<Rightarrow> [] | Some ts \<Rightarrow> ts), w'))"

text \<open>\<^verbatim>\<open>ToolProvider.load\<close>; the execution is recorded in the ghost log.\<close>

definition load :: "('t, 'x) ToolProvider \<Rightarrow> ('t list, 'x) action" where
  "load p w = (case load_impl p w of (r, w') \<Rightarrow> (r, w'\<lparr>loads := loads w @ [name p]\<rparr>))"

datatype pyval = VStr string | VTuple "string list" | VFloat "pyfloat option" | VBool bool

definition metadata :: "('t, 'x) ToolProvider \<Rightarrow> (string \<times> pyval) list" where
  "metadata p =
     [(''name'', VStr (name p)), (''kind'', VStr (kind p)),
      (''description'', VStr (description p)), (''tags'', VTuple (tags p)),
      (''cache_ttl'', VFloat (cache_ttl p))]"

section \<open>The manager (tool\_manager.py)\<close>

record 't CacheEntry =
  tools :: "'t list"
  expires_at :: "pyfloat option"

text \<open>\<^verbatim>\<open>_CacheEntry.valid\<close>; the second argument is the reading of \<^verbatim>\<open>time.time()\<close>.\<close>

definition valid :: "'t CacheEntry \<Rightarrow> real \<Rightarrow> bool" where
  "valid e t = (case expires_at e of None \<Rightarrow> True | Some x \<Rightarrow> fgt x t)"

record ('t, 'x) ToolManager =
  providers :: "string \<rightharpoonup> ('t, 'x) ToolProvider"
  cache :: "string \<rightharpoonup> 't CacheEntry"

definition ToolManager_init :: "('t, 'x) ToolManager" where
  "ToolManager_init = \<lparr>providers = Map.empty, cache = Map.empty\<rparr>"

definition register_provider ::
  "('t, 'x) ToolProvider \<Rightarrow> bool \<Rightarrow> ('t, 'x) ToolManager
     \<Rightarrow> (exn + unit) \<times> ('t, 'x) ToolManager" where
  "register_provider provider override m =
     (if name provider \<in> dom (providers m) \<and> \<not> override
      then (Inl (ToolManagerError
                  (''Tool provider '' @ quoted (name provider) @ '' already registered'') None),
            m)
      else (Inr (),
            m\<lparr>providers := (providers m)(name provider \<mapsto> provider),
              cache := (cache m)(name provider := None)\<rparr>))"

definition is_registered :: "string \<Rightarrow> ('t, 'x) ToolManager \<Rightarrow> bool" where
  "is_registered nm m = (nm \<in> dom (providers m))"

definition unknown_provider :: "string \<Rightarrow> exn" where
  "unknown_provider nm = ToolManagerError (''Unknown tool provider '' @ quoted nm) None"

definition describe ::
  "string \<Rightarrow> ('t, 'x) ToolManager \<Rightarrow> 'x world \<Rightarrow> exn + (string \<times> pyval) list" where
  "describe nm m w =
     (case providers m nm of
        None \<Rightarrow> Inl (unknown_provider nm)
      | Some provider \<Rightarrow>
          Inr (dict_set (metadata provider) ''cached''
                 (VBool (case cache m nm of None \<Rightarrow> False | Some entry \<Rightarrow> valid entry (now w)))))"

text \<open>
  The test \<^verbatim>\<open>not refresh and entry and entry.valid()\<close> of \<^verbatim>\<open>get_tools_async\<close>, made at lines
  172 and 178: the tools to return when it succeeds.
\<close>

definition cache_hit ::
  "string \<Rightarrow> bool \<Rightarrow> ('t, 'x) ToolManager \<Rightarrow> 'x world \<Rightarrow> 't list option" where
  "cache_hit nm refresh m w =
     (case cache m nm of
        None \<Rightarrow> None
      | Some entry \<Rightarrow> if \<not> refresh \<and> valid entry (now w) then Some (tools entry) else None)"

text \<open>
  Lines 181 to 185: the load, and on success the store. \<^verbatim>\<open>if ttl\<close> is false for \<^verbatim>\<open>None\<close>
  and for zero; otherwise the expiry instant is the float sum of the clock reading and the
  TTL. An exception of the load leaves the cache as it is.
\<close>

definition expiry :: "pyfloat option \<Rightarrow> real \<Rightarrow> pyfloat option" where
  "expiry ttl t =
     (case ttl of None \<Rightarrow> None | Some d \<Rightarrow> if float_bool d then Some (fadd t d) else None)"

definition load_and_store ::
  "string \<Rightarrow> ('t, 'x) ToolProvider \<Rightarrow> ('t, 'x) ToolManager \<Rightarrow> 'x world
     \<Rightarrow> (exn + 't list) \<times> ('t, 'x) ToolManager \<times> 'x world" where
  "load_and_store nm provider m w =
     (case load provider w of
        (Inl exc, w') \<Rightarrow> (Inl exc, m, w')
      | (Inr ts, w') \<Rightarrow>
          (Inr ts,
           m\<lparr>cache := (cache m)(nm \<mapsto>
                \<lparr>tools = ts, expires_at = expiry (cache_ttl provider) (now w')\<rparr>)\<rparr>,
           w'))"

text \<open>
  \<^verbatim>\<open>get_tools_async\<close> run by one caller alone: the lock is free, so acquiring it does not
  suspend, and both tests read the same cache and the same clock.
\<close>

definition get_tools_async ::
  "string \<Rightarrow> bool \<Rightarrow> ('t, 'x) ToolManager \<Rightarrow> 'x world
     \<Rightarrow> (exn + 't list) \<times> ('t, 'x) ToolManager \<times> 'x world" where
  "get_tools_async nm refresh m w =
     (case providers m nm of
        None \<Rightarrow> (Inl (unknown_provider nm), m, w)
      | Some provider \<Rightarrow>
          (case cache_hit nm refresh m w of
             Some ts \<Rightarrow> (Inr ts, m, w)
           | None \<Rightarrow>
               (case cache_hit nm refresh m w of
                  Some ts \<Rightarrow> (Inr ts, m, w)
                | None \<Rightarrow> load_and_store nm provider m w)))"

text \<open>
  The blocking entry point. \<open>in_loop\<close> says whether \<^verbatim>\<open>asyncio.get_running_loop()\<close> finds a
  running loop.
\<close>

definition misuse :: exn where
  "misuse = ToolManagerError
     (''Cannot call synchronous get_tools inside a running event loop. Use ''
        @ quoted ''await get_tools_async'' @ ''.'') None"

definition get_tools ::
  "bool \<Rightarrow> string \<Rightarrow> bool \<Rightarrow> ('t, 'x) ToolManager \<Rightarrow> 'x world
     \<Rightarrow> (exn + 't list) \<times> ('t, 'x) ToolManager \<times> 'x world" where
  "get_tools in_loop nm refresh m w =
     (if in_loop then (Inl misuse, m, w) else get_tools_async nm refresh m w)"

text \<open>\<^verbatim>\<open>clear_cache\<close>: \<^verbatim>\<open>if name\<close> is false for \<^verbatim>\<open>None\<close> and for the empty string.\<close>

definition clear_cache ::
  "string option \<Rightarrow> ('t, 'x) ToolManager \<Rightarrow> (exn + unit) \<times> ('t, 'x) ToolManager" where
  "clear_cache nm m =
     (case nm of
        None \<Rightarrow> (Inr (), m\<lparr>cache := Map.empty\<rparr>)
      | Some n \<Rightarrow> if n = [] then (Inr (), m\<lparr>cache := Map.empty\<rparr>)
                  else (Inr (), m\<lparr>cache := (cache m)(n := None)\<rparr>))"

section \<open>Specs and the spec directory (registry.py)\<close>

text \<open>
  The three subclasses of \<^verbatim>\<open>ToolSpec\<close>. \<open>env_factory\<close> reads the settings or the home
  directory when the provider loads.
\<close>

datatype 'x ToolSpec =
    DashScopeMCPSpec
      (tool_name: string) (server_name: string) (transport: string)
      (spec_description: string) (spec_tags: "string list") (spec_cache_ttl: "pyfloat option")
  | StdIOMCPSpec
      (tool_name: string) (server_name: string) (command: string) (args: "string list")
      (env_factory: "'x world \<Rightarrow> (string \<times> string) list option")
      (spec_description: string) (spec_tags: "string list") (spec_cache_ttl: "pyfloat option")
  | StaticMCPSpec
      (tool_name: string) (server_name: string) (transport: string) (url: string)
      (headers: "(string \<times> string) list") (extra_config: config)
      (spec_description: string) (spec_tags: "string list") (spec_cache_ttl: "pyfloat option")

definition str_dict :: "(string \<times> string) list \<Rightarrow> cfg" where
  "str_dict d = Dict (map (\<lambda>(k, v). (k, Str v)) d)"

text \<open>
  \<^verbatim>\<open>build_provider\<close> of each subclass; \<open>client\<close> is the external MCP client library that the
  built provider will call.
\<close>

fun build_provider ::
  "(config \<Rightarrow> ('t list, 'x) action) \<Rightarrow> 'x ToolSpec \<Rightarrow> ('t, 'x) ToolProvider" where
  "build_provider client (DashScopeMCPSpec tn sn tr d tg ttl) =
     MCPToolProvider tn d ([''dashscope'', ''mcp'', tr] @ tg) ttl
       (\<lambda>w. let api_key = dashscope_api_key (settings w) in
             if api_key = [] then None
             else Some [(sn, Dict
                    [(''transport'', Str tr),
                     (''url'', Str (''https://dashscope.aliyuncs.com/api/v1/mcps/'' @ sn @ ''/''
                                     @ (if tr = ''sse'' then ''sse'' else ''mcp''))),
                     (''headers'', Dict [(''Authorization'', Str (''Bearer '' @ api_key))])])])
       client False"
| "build_provider client (StdIOMCPSpec tn sn cmd as ef d tg ttl) =
     MCPToolProvider tn d ([''stdio'', ''mcp''] @ tg) ttl
       (\<lambda>w. case ef w of
               None \<Rightarrow> None
             | Some env \<Rightarrow> Some [(sn, Dict
                    [(''transport'', Str ''stdio''), (''command'', Str cmd),
                     (''args'', StrList as), (''env'', str_dict env)])])
       client False"
| "build_provider client (StaticMCPSpec tn sn tr u hs extra d tg ttl) =
     MCPToolProvider tn d ([''mcp'', tr] @ tg) ttl
       (\<lambda>w. Some [(sn, Dict (dict_update
                    (if hs = [] then [(''transport'', Str tr), (''url'', Str u)]
                     else [(''transport'', Str tr), (''url'', Str u), (''headers'', str_dict hs)])
                    extra))])
       client False"

definition register_spec ::
  "'x ToolSpec \<Rightarrow> bool \<Rightarrow> (string \<rightharpoonup> 'x ToolSpec)
     \<Rightarrow> (exn + unit) \<times> (string \<rightharpoonup> 'x ToolSpec)" where
  "register_spec spec override specs =
     (if tool_name spec \<in> dom specs \<and> \<not> override
      then (Inl (ToolManagerError
                  (''Tool spec '' @ quoted (tool_name spec) @ '' already registered'') None),
            specs)
      else (Inr (), specs(tool_name spec \<mapsto> spec)))"

definition register_callable_tool ::
  "string \<Rightarrow> ('t list option, 'x) action \<Rightarrow> string \<Rightarrow> string list option \<Rightarrow> pyfloat option
     \<Rightarrow> bool \<Rightarrow> ('t, 'x) ToolManager \<Rightarrow> (exn + unit) \<times> ('t, 'x) ToolManager" where
  "register_callable_tool nm b d tg ttl override m =
     register_provider
       (CallableToolProvider nm d (case tg of None \<Rightarrow> [] | Some ts \<Rightarrow> ts) ttl b) override m"

definition no_spec :: "string \<Rightarrow> exn" where
  "no_spec nm = ToolManagerError (''No tool spec registered for '' @ quoted nm) None"

definition ensure_tool_registered ::
  "(config \<Rightarrow> ('t list, 'x) action) \<Rightarrow> (string \<rightharpoonup> 'x ToolSpec) \<Rightarrow> string
     \<Rightarrow> ('t, 'x) ToolManager \<Rightarrow> (exn + unit) \<times> ('t, 'x) ToolManager" where
  "ensure_tool_registered client specs nm m =
     (if is_registered nm m then (Inr (), m)
      else (case specs nm of
              None \<Rightarrow> (Inl (no_spec nm), m)
            | Some spec \<Rightarrow> register_provider (build_provider client spec) False m))"

text \<open>The module-level \<^verbatim>\<open>get_tools\<close> and \<^verbatim>\<open>get_tools_async\<close> of registry.py.\<close>

definition registry_get_tools ::
  "(config \<Rightarrow> ('t list, 'x) action) \<Rightarrow> (string \<rightharpoonup> 'x ToolSpec) \<Rightarrow> bool \<Rightarrow> string \<Rightarrow> bool
     \<Rightarrow> ('t, 'x) ToolManager \<Rightarrow> 'x world
     \<Rightarrow> (exn + 't list) \<times> ('t, 'x) ToolManager \<times> 'x world" where
  "registry_get_tools client specs in_loop nm refresh m w =
     (case ensure_tool_registered client specs nm m of
        (Inl exc, m') \<Rightarrow> (Inl exc, m', w)
      | (Inr u, m') \<Rightarrow> get_tools in_loop nm refresh m' w)"

definition registry_get_tools_async ::
  "(config \<Rightarrow> ('t list, 'x) action) \<Rightarrow> (string \<rightharpoonup> 'x ToolSpec) \<Rightarrow> string \<Rightarrow> bool
     \<Rightarrow> ('t, 'x) ToolManager \<Rightarrow> 'x world
     \<Rightarrow> (exn + 't list) \<times> ('t, 'x) ToolManager \<times> 'x world" where
  "registry_get_tools_async client specs nm refresh m w =
     (case ensure_tool_registered client specs nm m of
        (Inl exc, m') \<Rightarrow> (Inl exc, m', w)
      | (Inr u, m') \<Rightarrow> get_tools_async nm refresh m' w)"

section \<open>Concurrent callers of \<^verbatim>\<open>get_tools_async\<close> in one event loop\<close>

text \<open>
  Tasks of one event loop run one at a time and give up control only at an \<^verbatim>\<open>await\<close> that
  suspends. \<^verbatim>\<open>get_tools_async\<close> has two such points: entering \<^verbatim>\<open>async with lock\<close> (line 176)
  and \<^verbatim>\<open>await provider.load()\<close> (line 181). A task is therefore in one of four places; the
  local variable \<^verbatim>\<open>provider\<close> (bound at line 167) travels with it.
\<close>

datatype ('t, 'x) pc =
    Start
  | WaitLock "('t, 'x) ToolProvider"
  | Loading "('t, 'x) ToolProvider"
  | Done "exn + 't list"

record ('t, 'x) task =
  t_name :: string
  t_refresh :: bool
  t_pc :: "('t, 'x) pc"

text \<open>
  The loop: the manager and the world shared by all tasks, the names whose lock of
  \<^verbatim>\<open>_locks[loop]\<close> is held, and the tasks.
\<close>

record ('t, 'x) loop_state =
  manager :: "('t, 'x) ToolManager"
  world :: "'x world"
  locked :: "string set"
  tasks :: "('t, 'x) task list"

definition set_pc :: "nat \<Rightarrow> ('t, 'x) pc \<Rightarrow> ('t, 'x) loop_state \<Rightarrow> ('t, 'x) loop_state" where
  "set_pc i c s = s\<lparr>tasks := (tasks s)[i := (tasks s ! i)\<lparr>t_pc := c\<rparr>]\<rparr>"

text \<open>
  One scheduling step of task \<open>i\<close>: the code it runs until it next suspends or finishes.
  \<^item> From \<open>Start\<close>: lines 167 to 175.
  \<^item> From \<open>WaitLock\<close>: blocked while the lock is held; otherwise the lock is taken and lines
    177 to 181 run, up to the call of \<^verbatim>\<open>provider.load()\<close>. A hit at line 178 returns and frees
    the lock at once.
  \<^item> From \<open>Loading\<close>: the load completes; lines 181 to 185 run and the lock is freed, also
    when the load raises.
  Letting a free lock be taken in a step of its own only adds interleavings to those of
  asyncio, where an uncontended \<^verbatim>\<open>acquire\<close> does not suspend and waiters are served in order.
\<close>

definition step :: "nat \<Rightarrow> ('t, 'x) loop_state \<Rightarrow> ('t, 'x) loop_state" where
  "step i s =
     (if length (tasks s) \<le> i then s
      else
        let nm = t_name (tasks s ! i); refresh = t_refresh (tasks s ! i) in
        (case t_pc (tasks s ! i) of
           Start \<Rightarrow>
             (case providers (manager s) nm of
                None \<Rightarrow> set_pc i (Done (Inl (unknown_provider nm))) s
              | Some provider \<Rightarrow>
                  (case cache_hit nm refresh (manager s) (world s) of
                     Some ts \<Rightarrow> set_pc i (Done (Inr ts)) s
                   | None \<Rightarrow> set_pc i (WaitLock provider) s))
         | WaitLock provider \<Rightarrow>
             if nm \<in> locked s then s
             else
               (case cache_hit nm refresh (manager s) (world s) of
                  Some ts \<Rightarrow> set_pc i (Done (Inr ts)) s
                | None \<Rightarrow> (set_pc i (Loading provider) s)\<lparr>locked := insert nm (locked s)\<rparr>)
         | Loading provider \<Rightarrow>
             (case load_and_store nm provider (manager s) (world s) of
                (r, m', w') \<Rightarrow>
                  (set_pc i (Done r) s)\<lparr>manager := m', world := w', locked := locked s - {nm}\<rparr>)
         | Done r \<Rightarrow> s))"

text \<open>
  A schedule is a list of events: task \<open>i\<close> is given a step, or the clock advances by \<open>d\<close>
  seconds between two steps.
\<close>

datatype event = Run nat | Tick real

fun exec :: "event \<Rightarrow> ('t, 'x) loop_state \<Rightarrow> ('t, 'x) loop_state" where
  "exec (Run i) s = step i s"
| "exec (Tick d) s = s\<lparr>world := (world s)\<lparr>now := now (world s) + d\<rparr>\<rparr>"

fun run :: "event list \<Rightarrow> ('t, 'x) loop_state \<Rightarrow> ('t, 'x) loop_state" where
  "run [] s = s"
| "run (e # es) s = run es (exec e s)"

text \<open>The loop when the calls \<open>(name, refresh)\<close> have just been made.\<close>

definition start ::
  "('t, 'x) ToolManager \<Rightarrow> 'x world \<Rightarrow> (string \<times> bool) list \<Rightarrow> ('t, 'x) loop_state" where
  "start m w calls =
     \<lparr>manager = m, world = w, locked = {},
      tasks = map (\<lambda>(nm, r). \<lparr>t_name = nm, t_refresh = r, t_pc = Start\<rparr>) calls\<rparr>"

definition results :: "('t, 'x) loop_state \<Rightarrow> (exn + 't list) option list" where
  "results s = map (\<lambda>t. case t_pc t of Done r \<Rightarrow> Some r | _ \<Rightarrow> None) (tasks s)"

text \<open>
  The entry cached for \<open>nm\<close>, if there is one, is valid now; and it is so in every state that
  the schedule goes through.
\<close>

definition entry_valid :: "string \<Rightarrow> ('t, 'x) loop_state \<Rightarrow> bool" where
  "entry_valid nm s =
     (case cache (manager s) nm of None \<Rightarrow> True | Some e \<Rightarrow> valid e (now (world s)))"

fun stays_valid :: "string \<Rightarrow> event list \<Rightarrow> ('t, 'x) loop_state \<Rightarrow> bool" where
  "stays_valid nm [] s = entry_valid nm s"
| "stays_valid nm (e # es) s = (entry_valid nm s \<and> stays_valid nm es (exec e s))"

section \<open>What holds of the loop while it runs\<close>

fun is_loading :: "('t, 'x) pc \<Rightarrow> bool" where
  "is_loading (Loading q) = True"
| "is_loading c = False"

fun is_done :: "('t, 'x) pc \<Rightarrow> bool" where
  "is_done (Done r) = True"
| "is_done c = False"

text \<open>
  Whatever the calls are: two tasks that are loading load different names, and the lock of a
  name is held exactly while some task is loading that name.
\<close>

definition lock_inv :: "('t, 'x) loop_state \<Rightarrow> bool" where
  "lock_inv s \<longleftrightarrow>
     (\<forall>i<length (tasks s). \<forall>j<length (tasks s).
        is_loading (t_pc (tasks s ! i)) \<longrightarrow> is_loading (t_pc (tasks s ! j)) \<longrightarrow>
        t_name (tasks s ! i) = t_name (tasks s ! j) \<longrightarrow> i = j) \<and>
     (\<forall>nm. nm \<in> locked s \<longleftrightarrow>
        (\<exists>i<length (tasks s). is_loading (t_pc (tasks s ! i)) \<and> t_name (tasks s ! i) = nm))"

text \<open>The number of loads of \<open>nm\<close> in flight: the tasks that are loading it.\<close>

definition in_flight :: "('t, 'x) loop_state \<Rightarrow> string \<Rightarrow> nat" where
  "in_flight s nm = length (filter (\<lambda>t. is_loading (t_pc t) \<and> t_name t = nm) (tasks s))"

text \<open>
  When the callers all ask for \<open>nm\<close> without refresh and carry the registered provider \<open>p\<close>:
  until the first load completes, the cache has no entry for \<open>nm\<close>, nobody has returned, at
  most one task is loading and the lock is held exactly then. Afterwards the cache has the
  entry \<open>e\<close>, the lock is free, nobody is loading, and whoever has returned got the tools
  of \<open>e\<close>.
\<close>

fun pc_ok :: "('t, 'x) ToolProvider \<Rightarrow> ('t, 'x) pc \<Rightarrow> bool" where
  "pc_ok p Start = True"
| "pc_ok p (WaitLock q) = (q = p)"
| "pc_ok p (Loading q) = (q = p)"
| "pc_ok p (Done r) = True"

fun done_with :: "'t list \<Rightarrow> ('t, 'x) pc \<Rightarrow> bool" where
  "done_with ts (Done r) = (r = Inr ts)"
| "done_with ts c = True"

definition callers :: "string \<Rightarrow> ('t, 'x) ToolProvider \<Rightarrow> ('t, 'x) loop_state \<Rightarrow> bool" where
  "callers nm p s \<longleftrightarrow>
     providers (manager s) nm = Some p \<and>
     (\<forall>i<length (tasks s). t_name (tasks s ! i) = nm \<and> \<not> t_refresh (tasks s ! i)
        \<and> pc_ok p (t_pc (tasks s ! i)))"

definition before_load :: "string \<Rightarrow> string list \<Rightarrow> ('t, 'x) loop_state \<Rightarrow> bool" where
  "before_load nm base s \<longleftrightarrow>
     cache (manager s) nm = None \<and> loads (world s) = base \<and>
     (\<forall>i<length (tasks s). \<not> is_done (t_pc (tasks s ! i))) \<and>
     (\<forall>i<length (tasks s). \<forall>j<length (tasks s).
        is_loading (t_pc (tasks s ! i)) \<longrightarrow> is_loading (t_pc (tasks s ! j)) \<longrightarrow> i = j) \<and>
     (nm \<in> locked s \<longleftrightarrow> (\<exists>i<length (tasks s). is_loading (t_pc (tasks s ! i))))"

definition after_load ::
  "string \<Rightarrow> string list \<Rightarrow> 't CacheEntry \<Rightarrow> ('t, 'x) loop_state \<Rightarrow> bool" where
  "after_load nm lg e s \<longleftrightarrow>
     cache (manager s) nm = Some e \<and> loads (world s) = lg \<and> nm \<notin> locked s \<and>
     (\<forall>i<length (tasks s). \<not> is_loading (t_pc (tasks s ! i))
        \<and> done_with (tools e) (t_pc (tasks s ! i)))"

definition single_flight_inv ::
  "string \<Rightarrow> ('t, 'x) ToolProvider \<Rightarrow> string list \<Rightarrow> ('t, 'x) loop_state \<Rightarrow> bool" where
  "single_flight_inv nm p base s \<longleftrightarrow>
     callers nm p s \<and>
     (before_load nm base s \<or> (\<exists>e. after_load nm (base @ [name p]) e s))"

text \<open>
  The number of scheduling steps a task still needs at most, and their sum over the tasks.
\<close>

fun weight :: "('t, 'x) pc \<Rightarrow> nat" where
  "weight Start = 3"
| "weight (WaitLock q) = 2"
| "weight (Loading q) = 1"
| "weight (Done r) = 0"

definition todo :: "('t, 'x) loop_state \<Rightarrow> nat" where
  "todo s = sum_list (map (\<lambda>t. weight (t_pc t)) (tasks s))"

section \<open>Example inputs\<close>

definition world0 :: "unit world" where
  "world0 = \<lparr>now = 100, settings = \<lparr>dashscope_api_key = [], amap_maps_api_key = []\<rparr>,
             home = ''/home/agent'', loads = [], ext = ()\<rparr>"

text \<open>
  Builders: one that returns two tools after half a second, one that raises, and a
  synchronous one that raises \<^verbatim>\<open>StopIteration\<close>.
\<close>

definition two_tools :: "(string list option, 'x) action" where
  "two_tools w = (Inr (Some [''search'', ''fetch'']), w\<lparr>now := now w + 1/2\<rparr>)"

definition broken :: "(string list option, 'x) action" where
  "broken w = (Inl (PyException ''ValueError''), w)"

definition exhausted :: "(string list option, 'x) action" where
  "exhausted w = (Inl StopIteration, w)"

text \<open>A builder with a call counter in the world, which raises an error naming the count.\<close>

definition counting :: "(string list option, nat) action" where
  "counting w = (Inl (PyException (replicate (ext w) CHR ''I'')), w\<lparr>ext := Suc (ext w)\<rparr>)"

text \<open>
  An MCP server that answers with one tool, one that is unreachable, and a call that is
  cancelled while it waits.
\<close>

definition answering :: "config \<Rightarrow> (string list, 'x) action" where
  "answering config w = (Inr [''forecast''], w)"

definition unreachable :: "config \<Rightarrow> (string list, 'x) action" where
  "unreachable config w = (Inl (PyException ''ConnectError''), w)"

definition cancelled :: "config \<Rightarrow> (string list, 'x) action" where
  "cancelled config w = (Inl (PyBaseException ''CancelledError''), w)"

definition local_provider :: "pyfloat option \<Rightarrow> (string, unit) ToolProvider" where
  "local_provider ttl = CallableToolProvider ''local'' ''two local tools'' [] ttl two_tools"

definition manager_with :: "('t, 'x) ToolProvider \<Rightarrow> ('t, 'x) ToolManager" where
  "manager_with p = \<lparr>providers = [name p \<mapsto> p], cache = Map.empty\<rparr>"

section \<open>Rounding is monotone\<close>

lemma rhe_of_int: "rhe (of_int n) = n"
  by (simp add: rhe_def)

lemma rhe_bounds: "\<lfloor>r\<rfloor> \<le> rhe r \<and> rhe r \<le> \<lfloor>r\<rfloor> + 1"
  by (simp add: rhe_def Let_def)

lemma rhe_mono:
  assumes "r \<le> r'"
  shows "rhe r \<le> rhe r'"
proof (cases "\<lfloor>r\<rfloor> = \<lfloor>r'\<rfloor>")
  case True
  then show ?thesis using assms by (auto simp: rhe_def Let_def)
next
  case False
  with floor_mono [OF assms] have "\<lfloor>r\<rfloor> + 1 \<le> \<lfloor>r'\<rfloor>" by simp
  with rhe_bounds [of r] rhe_bounds [of r'] show ?thesis by linarith
qed

lemma rhe_le: "r \<le> of_int n \<Longrightarrow> rhe r \<le> n"
  using rhe_mono [of r "of_int n"] by (simp add: rhe_of_int)

lemma rhe_ge: "of_int n \<le> r \<Longrightarrow> n \<le> rhe r"
  using rhe_mono [of "of_int n" r] by (simp add: rhe_of_int)

lemma halvings_le: "halvings n a \<le> n"
  by (induction n arbitrary: a) auto

lemma halvings_lower: "1 \<le> a \<Longrightarrow> 2 ^ halvings n a \<le> a"
proof (induction n arbitrary: a)
  case 0
  then show ?case by simp
next
  case (Suc n)
  show ?case
  proof (cases "2 \<le> a")
    case True
    then have "2 ^ halvings n (a / 2) \<le> a / 2" by (intro Suc.IH) simp
    with True show ?thesis by simp
  next
    case False
    with Suc.prems show ?thesis by simp
  qed
qed

lemma halvings_upper: "halvings n a < n \<Longrightarrow> a < 2 * 2 ^ halvings n a"
proof (induction n arbitrary: a)
  case 0
  then show ?case by simp
next
  case (Suc n)
  show ?case
  proof (cases "2 \<le> a")
    case True
    with Suc.prems have "halvings n (a / 2) < n" by simp
    then have "a / 2 < 2 * 2 ^ halvings n (a / 2)" by (rule Suc.IH)
    with True show ?thesis by simp
  next
    case False
    then show ?thesis by simp
  qed
qed

lemma halvings_mono: "a \<le> b \<Longrightarrow> halvings n a \<le> halvings n b"
  by (induction n arbitrary: a b) auto

lemma halvings_full: "halvings n a = n \<longleftrightarrow> n = 0 \<or> 2 ^ n \<le> a"
proof (induction n arbitrary: a)
  case 0
  then show ?case by simp
next
  case (Suc n)
  show ?case
  proof (cases "2 \<le> a")
    case True
    have "halvings n (a / 2) = n \<longleftrightarrow> n = 0 \<or> 2 ^ n \<le> a / 2" by (rule Suc.IH)
    with True show ?thesis by (cases "n = 0") auto
  next
    case False
    have "(1::real) \<le> 2 ^ n" by simp
    then have "(2::real) \<le> 2 * 2 ^ n" by linarith
    with False have "\<not> 2 * 2 ^ n \<le> a" by linarith
    with False show ?thesis by simp
  qed
qed

lemma doublings_le: "doublings n a \<le> n"
  by (induction n arbitrary: a) auto

lemma doublings_upper: "a < 1 \<Longrightarrow> a * 2 ^ doublings n a < 2"
proof (induction n arbitrary: a)
  case 0
  then show ?case by simp
next
  case (Suc n)
  show ?case
  proof (cases "2 * a < 1")
    case True
    then have "2 * a * 2 ^ doublings n (2 * a) < 2" by (rule Suc.IH)
    with Suc.prems show ?thesis by (simp add: mult.assoc mult.left_commute)
  next
    case False
    then have "doublings n (2 * a) = 0" by (cases n) simp_all
    with Suc.prems show ?thesis by simp
  qed
qed

lemma doublings_lower: "doublings n a < n \<Longrightarrow> 1 \<le> a * 2 ^ doublings n a"
proof (induction n arbitrary: a)
  case 0
  then show ?case by simp
next
  case (Suc n)
  show ?case
  proof (cases "a < 1")
    case True
    with Suc.prems have "doublings n (2 * a) < n" by simp
    then have "1 \<le> 2 * a * 2 ^ doublings n (2 * a)" by (rule Suc.IH)
    with True show ?thesis by (simp add: mult.assoc mult.left_commute)
  next
    case False
    then show ?thesis by simp
  qed
qed

lemma doublings_antimono: "a \<le> b \<Longrightarrow> doublings n b \<le> doublings n a"
  by (induction n arbitrary: a b) auto

lemma doublings_pos: "a < 1 \<Longrightarrow> doublings (Suc n) a \<noteq> 0"
  by simp



lemma ulp_pos: "0 < ulp a"
  by (simp add: ulp_def)

lemma ulp_less_high:
  "1 \<le> a \<Longrightarrow> 1 \<le> b \<Longrightarrow> ulp a < ulp b \<longleftrightarrow> halvings 1023 a < halvings 1023 b"
  by (simp add: ulp_def divide_less_cancel)

lemma ulp_less_low:
  assumes "a < 1" and "b < 1"
  shows "ulp a < ulp b \<longleftrightarrow> doublings 1022 b < doublings 1022 a"
proof -
  let ?X = "2 ^ doublings 1022 a * 2 ^ 52 :: real" and ?Y = "2 ^ doublings 1022 b * 2 ^ 52 :: real"
  have "inverse ?X < inverse ?Y \<longleftrightarrow> ?Y < ?X" by (rule inverse_less_iff_less) simp_all
  also have "\<dots> \<longleftrightarrow> doublings 1022 b < doublings 1022 a" by simp
  finally have main: "inverse ?X < inverse ?Y \<longleftrightarrow> doublings 1022 b < doublings 1022 a" .
  have ua: "ulp a = inverse ?X" and ub: "ulp b = inverse ?Y"
    using assms by (simp_all add: ulp_def inverse_eq_divide)
  show ?thesis unfolding ua ub by (rule main)
qed

lemma ulp_low_high:
  assumes "a < 1" and "1 \<le> b"
  shows "2 * ulp a \<le> ulp b"
proof -
  have "doublings 1022 a \<noteq> 0" using assms(1) doublings_pos [of a 1021] by simp
  then obtain d where d: "doublings 1022 a = Suc d" by (cases "doublings 1022 a") simp_all
  have ua: "ulp a = 1 / (2 ^ Suc d * 2 ^ 52)" using assms d by (simp add: ulp_def)
  have ub: "ulp b = 2 ^ halvings 1023 b / 2 ^ 52" using assms by (simp add: ulp_def)
  have "(1::real) \<le> 2 ^ d" by simp
  then have "2 * ulp a \<le> 1 / 2 ^ 52" unfolding ua by (simp add: field_simps)
  also have "\<dots> \<le> ulp b" unfolding ub by (intro divide_right_mono) simp_all
  finally show ?thesis .
qed

lemma ulp_high_low: "1 \<le> a \<Longrightarrow> b < 1 \<Longrightarrow> ulp b < ulp a"
  using ulp_low_high [of b a] ulp_pos [of b] by linarith

lemma ulp_mono:
  assumes "a \<le> b"
  shows "ulp a \<le> ulp b"
proof -
  consider "1 \<le> a" "1 \<le> b" | "a < 1" "b < 1" | "a < 1" "1 \<le> b" using assms by linarith
  then show ?thesis
  proof cases
    case 1
    then show ?thesis
      using ulp_less_high [of b a] halvings_mono [OF assms, of 1023] by auto
  next
    case 2
    then show ?thesis
      using ulp_less_low [of b a] doublings_antimono [OF assms, of 1022] by auto
  next
    case 3
    then show ?thesis using ulp_low_high [of a b] ulp_pos [of a] by linarith
  qed
qed

text \<open>Two different values of \<open>ulp\<close> differ by a factor of two at least.\<close>

lemma ulp_double:
  assumes "ulp a < ulp b"
  shows "2 * ulp a \<le> ulp b"
proof -
  consider "1 \<le> a" "1 \<le> b" | "a < 1" "b < 1" | "a < 1" "1 \<le> b" | "1 \<le> a" "b < 1"
    by linarith
  then show ?thesis
  proof cases
    case 1
    with assms have "Suc (halvings 1023 a) \<le> halvings 1023 b" by (simp add: ulp_less_high)
    then have "(2::real) ^ Suc (halvings 1023 a) \<le> 2 ^ halvings 1023 b"
      by (intro power_increasing) simp_all
    then have "2 ^ Suc (halvings 1023 a) / 2 ^ 52 \<le> 2 ^ halvings 1023 b / (2 ^ 52 :: real)"
      by (intro divide_right_mono) simp_all
    with 1 show ?thesis by (simp add: ulp_def)
  next
    case 2
    with assms have "Suc (doublings 1022 b) \<le> doublings 1022 a" by (simp add: ulp_less_low)
    then have "(2::real) ^ Suc (doublings 1022 b) \<le> 2 ^ doublings 1022 a"
      by (intro power_increasing) simp_all
    then have "1 / (2 ^ doublings 1022 a * 2 ^ 52) \<le> 1 / (2 ^ Suc (doublings 1022 b) * 2 ^ 52 :: real)"
      by (intro frac_le) simp_all
    with 2 show ?thesis by (simp add: ulp_def)
  next
    case 3
    then show ?thesis by (rule ulp_low_high)
  next
    case 4
    with assms ulp_high_low [of a b] show ?thesis by simp
  qed
qed

text \<open>Below the top of a binade that is not the last one.\<close>

lemma below_next_binade:
  assumes "ulp a < ulp b"
  shows "a < 2 ^ 53 * ulp a"
proof (cases "1 \<le> a")
  case True
  have "halvings 1023 a < 1023"
  proof (cases "1 \<le> b")
    case b: True
    with True assms have "halvings 1023 a < halvings 1023 b" by (simp add: ulp_less_high)
    with halvings_le [of 1023 b] show ?thesis by simp
  next
    case False
    with True assms ulp_high_low [of a b] show ?thesis by simp
  qed
  then have "a < 2 * 2 ^ halvings 1023 a" by (rule halvings_upper)
  with True show ?thesis by (simp add: ulp_def)
next
  case False
  then have "a * 2 ^ doublings 1022 a < 2" by (intro doublings_upper) simp
  then have "a < 2 / 2 ^ doublings 1022 a" by (simp add: pos_less_divide_eq)
  with False show ?thesis by (simp add: ulp_def)
qed

lemma above_binade_start:
  assumes "ulp a < ulp b"
  shows "2 ^ 52 * ulp b \<le> b"
proof (cases "1 \<le> b")
  case True
  then have "2 ^ halvings 1023 b \<le> b" by (rule halvings_lower)
  with True show ?thesis by (simp add: ulp_def)
next
  case False
  have "doublings 1022 b < 1022"
  proof (cases "1 \<le> a")
    case True
    with False assms ulp_high_low [of a b] show ?thesis by simp
  next
    case a: False
    with False assms have "doublings 1022 b < doublings 1022 a" by (simp add: ulp_less_low)
    with doublings_le [of 1022 a] show ?thesis by simp
  qed
  then have "1 \<le> b * 2 ^ doublings 1022 b" by (rule doublings_lower)
  then have "1 / 2 ^ doublings 1022 b \<le> b" by (simp add: pos_divide_le_eq)
  with False show ?thesis by (simp add: ulp_def)
qed

lemma round64_nonneg: "0 \<le> x \<Longrightarrow> 0 \<le> round64 x"
proof -
  assume x: "0 \<le> x"
  have "0 \<le> \<bar>x\<bar> / ulp \<bar>x\<bar>" using ulp_pos [of "\<bar>x\<bar>"] by simp
  then have "0 \<le> rhe (\<bar>x\<bar> / ulp \<bar>x\<bar>)" using rhe_ge [of 0] by simp
  with x ulp_pos [of "\<bar>x\<bar>"] show ?thesis
    by (simp add: round64_def sgn_real_def)
qed

lemma round64_minus: "round64 (- x) = - round64 x"
  by (simp add: round64_def sgn_real_def)

lemma round64_mono_nonneg:
  assumes "0 \<le> a" and "a \<le> b"
  shows "round64 a \<le> round64 b"
proof (cases "a = 0")
  case True
  then show ?thesis using round64_nonneg [of b] assms by (simp add: round64_def)
next
  case False
  with assms have pos: "0 < a" "0 < b" by simp_all
  then have r: "round64 a = of_int (rhe (a / ulp a)) * ulp a"
    "round64 b = of_int (rhe (b / ulp b)) * ulp b"
    by (simp_all add: round64_def)
  from ulp_mono [OF assms(2)] consider "ulp a = ulp b" | "ulp a < ulp b" by linarith
  then show ?thesis
  proof cases
    case 1
    have "a / ulp b \<le> b / ulp b" using assms(2) ulp_pos [of b] by (simp add: divide_right_mono)
    then have "rhe (a / ulp b) \<le> rhe (b / ulp b)" by (rule rhe_mono)
    then have "of_int (rhe (a / ulp b)) * ulp b \<le> of_int (rhe (b / ulp b)) * ulp b"
      using ulp_pos [of b] by (simp add: mult_right_mono)
    with r 1 show ?thesis by simp
  next
    case 2
    have "a / ulp a \<le> of_int (2 ^ 53)"
      using below_next_binade [OF 2] ulp_pos [of a] by (simp add: pos_divide_le_eq)
    then have "rhe (a / ulp a) \<le> 2 ^ 53" by (rule rhe_le)
    then have "of_int (rhe (a / ulp a)) \<le> (2 ^ 53 :: real)"
      by (metis of_int_le_iff of_int_numeral of_int_power)
    then have "round64 a \<le> 2 ^ 53 * ulp a"
      using ulp_pos [of a] by (simp add: r mult_right_mono)
    also have "\<dots> = 2 ^ 52 * (2 * ulp a)" by simp
    also have "\<dots> \<le> 2 ^ 52 * ulp b" using ulp_double [OF 2] by (intro mult_left_mono) simp_all
    also have "\<dots> \<le> round64 b"
    proof -
      have "of_int (2 ^ 52) \<le> b / ulp b"
        using above_binade_start [OF 2] ulp_pos [of b] by (simp add: pos_le_divide_eq)
      then have "2 ^ 52 \<le> rhe (b / ulp b)" by (rule rhe_ge)
      then have "(2 ^ 52 :: real) \<le> of_int (rhe (b / ulp b))"
        by (metis of_int_le_iff of_int_numeral of_int_power)
      then show ?thesis using ulp_pos [of b] by (simp add: r mult_right_mono)
    qed
    finally show ?thesis .
  qed
qed

lemma round64_mono:
  assumes "x \<le> y"
  shows "round64 x \<le> round64 y"
proof -
  consider "0 \<le> x" | "y \<le> 0" | "x < 0" "0 < y" by linarith
  then show ?thesis
  proof cases
    case 1
    then show ?thesis using assms by (rule round64_mono_nonneg)
  next
    case 2
    with assms have "round64 (- y) \<le> round64 (- x)" by (intro round64_mono_nonneg) simp_all
    then show ?thesis by (simp add: round64_minus)
  next
    case 3
    have "round64 (- x) \<ge> 0" using 3 by (intro round64_nonneg) simp
    moreover have "round64 y \<ge> 0" using 3 by (intro round64_nonneg) simp
    ultimately show ?thesis by (simp add: round64_minus)
  qed
qed

lemma overflow_iff: "overflow r \<longleftrightarrow> 2 ^ 1024 \<le> r"
  unfolding overflow_def by (subst halvings_full) simp

text \<open>
  A float sum that an exact sum stays below: when the clock reads a finite float above the
  exact sum \<open>T + t\<close>, the rounded sum is not above the reading.
\<close>

lemma fadd_passed:
  assumes "is_double c" and "T + t < c"
  shows "\<not> fgt (fadd T (Fin t)) c"
proof -
  from assms(1) have c: "round64 c = c" and fin: "\<not> overflow c" by (simp_all add: is_double_def)
  have le: "round64 (T + t) \<le> c" using round64_mono [of "T + t" c] assms(2) c by simp
  have "\<not> overflow (round64 (T + t))"
  proof
    assume "overflow (round64 (T + t))"
    with overflow_iff [of "round64 (T + t)"] have "2 ^ 1024 \<le> round64 (T + t)" by blast
    with le have "2 ^ 1024 \<le> c" by linarith
    with fin overflow_iff [of c] show False by blast
  qed
  with le show ?thesis by (simp add: Let_def)
qed

section \<open>Loading and caching by a single caller\<close>

lemma load_log: "load p w = (r, w') \<Longrightarrow> loads w' = loads w @ [name p]"
  by (auto simp: load_def split: prod.splits)

text \<open>
  No \<^verbatim>\<open>StopIteration\<close> leaves \<^verbatim>\<open>_load\<close>, so the coroutines \<^verbatim>\<open>load\<close> and \<^verbatim>\<open>get_tools_async\<close>
  that an exception passes next leave it as it is.
\<close>

lemma leaving_coroutine_idem: "leaving_coroutine (leaving_coroutine e) = leaving_coroutine e"
  by (cases e) simp_all

lemma load_never_StopIteration: "fst (load p w) \<noteq> Inl StopIteration"
proof (cases p)
  case (MCPToolProvider n d tg ttl sf bc strict)
  then show ?thesis
    by (auto simp: load_def split: option.splits prod.splits sum.splits if_splits)
next
  case (CallableToolProvider n d tg ttl b)
  have "leaving_coroutine e \<noteq> StopIteration" for e by (cases e) simp_all
  with CallableToolProvider show ?thesis
    by (auto simp: load_def split: prod.splits sum.splits)
qed

lemma load_and_store_ok:
  "load p w = (Inr ts, w') \<Longrightarrow> load_and_store nm p m w =
     (Inr ts, m\<lparr>cache := (cache m)(nm \<mapsto> \<lparr>tools = ts, expires_at = expiry (cache_ttl p) (now w')\<rparr>)\<rparr>, w')"
  by (simp add: load_and_store_def)

lemma get_tools_async_hit:
  "providers m nm = Some p \<Longrightarrow> cache m nm = Some e \<Longrightarrow> valid e (now w)
     \<Longrightarrow> get_tools_async nm False m w = (Inr (tools e), m, w)"
  by (simp add: get_tools_async_def cache_hit_def)

lemma get_tools_async_miss:
  "providers m nm = Some p \<Longrightarrow> cache_hit nm r m w = None
     \<Longrightarrow> get_tools_async nm r m w = load_and_store nm p m w"
  by (simp add: get_tools_async_def)

lemma get_tools_async_loaded:
  assumes "providers m nm = Some p"
    and "get_tools_async nm r m w = (Inr ts, m', w')"
    and "loads w' \<noteq> loads w"
  shows "m' = m\<lparr>cache := (cache m)(nm \<mapsto> \<lparr>tools = ts, expires_at = expiry (cache_ttl p) (now w')\<rparr>)\<rparr>"
  using assms
  by (auto simp: get_tools_async_def load_and_store_def split: option.splits prod.splits sum.splits)

lemma load_and_store_log:
  "load_and_store nm p m w = (r, m', w') \<Longrightarrow> loads w' = loads w @ [name p]"
  by (auto simp: load_and_store_def split: prod.splits sum.splits dest: load_log)

lemma load_and_store_fail:
  "load p w = (Inl exc, w') \<Longrightarrow> load_and_store nm p m w = (Inl exc, m, w')"
  by (simp add: load_and_store_def)

text \<open>
  C2. A provider without TTL: once a call has executed a load that completed, a later call
  without refresh, in whatever world and at whatever time, returns the same list and leaves
  the manager and the world (hence the load log) as they are: the entry never expires.
\<close>

theorem no_ttl_second_call_cached:
  assumes "providers m nm = Some p" and "cache_ttl p = None"
    and "get_tools_async nm r m w = (Inr ts, m', w')"
    and "loads w' = loads w @ [name p]"
  shows "get_tools_async nm False m' w2 = (Inr ts, m', w2)"
proof -
  from assms(4) have "loads w' \<noteq> loads w" by simp
  with assms have m': "m' = m\<lparr>cache := (cache m)(nm \<mapsto> \<lparr>tools = ts, expires_at = None\<rparr>)\<rparr>"
    using get_tools_async_loaded [of m nm p r w ts m' w'] by (simp add: expiry_def)
  show ?thesis
    using get_tools_async_hit [of m' nm p "\<lparr>tools = ts, expires_at = None\<rparr>" w2] assms(1)
    by (simp add: m' valid_def)
qed

theorem no_ttl_second_call_cached_witness:
  "get_tools_async ''local'' False
     (fst (snd (get_tools_async ''local'' False (manager_with (local_provider None)) world0)))
     (world0\<lparr>now := 86500\<rparr>)
   = (Inr [''search'', ''fetch''],
      fst (snd (get_tools_async ''local'' False (manager_with (local_provider None)) world0)),
      world0\<lparr>now := 86500\<rparr>)"
proof -
  let ?m = "manager_with (local_provider None)"
  let ?X = "get_tools_async ''local'' False ?m world0"
  have reg: "providers ?m ''local'' = Some (local_provider None)"
    by (simp add: manager_with_def local_provider_def)
  have ttl: "cache_ttl (local_provider None) = None" by (simp add: local_provider_def)
  have "fst ?X = Inr [''search'', ''fetch'']"
    by (simp add: get_tools_async_def manager_with_def local_provider_def cache_hit_def
        load_and_store_def load_def two_tools_def)
  then have call: "?X = (Inr [''search'', ''fetch''], fst (snd ?X), snd (snd ?X))"
    by (simp add: prod_eq_iff)
  have lg: "loads (snd (snd ?X)) = loads world0 @ [name (local_provider None)]"
    by (simp add: get_tools_async_def manager_with_def local_provider_def cache_hit_def
        load_and_store_def load_def two_tools_def)
  from no_ttl_second_call_cached [OF reg ttl call lg] show ?thesis .
qed

text \<open>
  C3, as the code has it. A provider with TTL \<open>t > 0\<close>: the entry stored by a completed load
  expires at the float sum of the clock reading taken when the load returned (\<open>now w'\<close>) and
  \<open>t\<close>. A call without refresh made while the clock reads less than that sum returns the
  cached list and executes no load; a call made when it reads that sum or more executes
  exactly one load of the provider. So does every call made after \<open>t\<close> seconds, that is at
  a reading above \<open>now w' + t\<close>, since the sum is rounded to a float no greater than the
  reading.
\<close>

theorem ttl_before_and_after:
  assumes "providers m nm = Some p" and "cache_ttl p = Some (Fin t)" and "0 < t"
    and "get_tools_async nm r m w = (Inr ts, m', w')"
    and "loads w' = loads w @ [name p]"
  shows "(fgt (fadd (now w') (Fin t)) (now w2) \<longrightarrow>
            get_tools_async nm False m' w2 = (Inr ts, m', w2)) \<and>
         (\<not> fgt (fadd (now w') (Fin t)) (now w2) \<longrightarrow>
            (\<exists>r2 m2 w2'. get_tools_async nm False m' w2 = (r2, m2, w2')
                \<and> loads w2' = loads w2 @ [name p])) \<and>
         (is_double (now w2) \<and> now w' + t < now w2 \<longrightarrow>
            (\<exists>r2 m2 w2'. get_tools_async nm False m' w2 = (r2, m2, w2')
                \<and> loads w2' = loads w2 @ [name p]))"
proof -
  let ?x = "fadd (now w') (Fin t)"
  from assms(5) have "loads w' \<noteq> loads w" by simp
  with assms have m': "m' = m\<lparr>cache := (cache m)(nm \<mapsto> \<lparr>tools = ts, expires_at = Some ?x\<rparr>)\<rparr>"
    using get_tools_async_loaded [of m nm p r w ts m' w'] by (simp add: expiry_def)
  have before: "get_tools_async nm False m' w2 = (Inr ts, m', w2)" if "fgt ?x (now w2)"
    using get_tools_async_hit [of m' nm p "\<lparr>tools = ts, expires_at = Some ?x\<rparr>" w2] assms(1) that
    by (simp add: m' valid_def)
  have after: "\<exists>r2 m2 w2'. get_tools_async nm False m' w2 = (r2, m2, w2') \<and> loads w2' = loads w2 @ [name p]"
    if "\<not> fgt ?x (now w2)"
  proof -
    have "cache_hit nm False m' w2 = None"
      using that by (simp add: cache_hit_def m' valid_def)
    moreover have "providers m' nm = Some p" using assms(1) by (simp add: m')
    ultimately have "get_tools_async nm False m' w2 = load_and_store nm p m' w2"
      by (rule get_tools_async_miss [rotated])
    then show ?thesis
      using load_and_store_log [of nm p m' w2] by (metis prod_cases3)
  qed
  have "\<not> fgt ?x (now w2)" if "is_double (now w2)" "now w' + t < now w2"
    using that by (rule fadd_passed)
  with before after show ?thesis by blast
qed

lemma fadd_example: "fadd (201 / 2) (Fin 60) = Fin (321 / 2)"
  by code_simp

lemma is_double_example: "is_double 200"
  by code_simp

theorem ttl_before_and_after_witness:
  "get_tools_async ''local'' False
     (fst (snd (get_tools_async ''local'' False (manager_with (local_provider (Some (Fin 60)))) world0)))
     (world0\<lparr>now := 130\<rparr>)
   = (Inr [''search'', ''fetch''],
      fst (snd (get_tools_async ''local'' False (manager_with (local_provider (Some (Fin 60)))) world0)),
      world0\<lparr>now := 130\<rparr>) \<and>
   loads (snd (snd (get_tools_async ''local'' False
     (fst (snd (get_tools_async ''local'' False (manager_with (local_provider (Some (Fin 60)))) world0)))
     (world0\<lparr>now := 200\<rparr>)))) = [''local'']"
proof -
  let ?p = "local_provider (Some (Fin 60))"
  let ?m = "manager_with ?p"
  let ?X = "get_tools_async ''local'' False ?m world0"
  have reg: "providers ?m ''local'' = Some ?p"
    by (simp add: manager_with_def local_provider_def)
  have ttl: "cache_ttl ?p = Some (Fin 60)" by (simp add: local_provider_def)
  have res: "fst ?X = Inr [''search'', ''fetch'']"
    and lg': "loads (snd (snd ?X)) = [''local'']"
    and clock: "now (snd (snd ?X)) = 201 / 2"
    by (simp_all add: get_tools_async_def manager_with_def local_provider_def cache_hit_def
        load_and_store_def load_def two_tools_def world0_def)
  from res have call: "?X = (Inr [''search'', ''fetch''], fst (snd ?X), snd (snd ?X))"
    by (simp add: prod_eq_iff)
  from lg' have lg: "loads (snd (snd ?X)) = loads world0 @ [name ?p]"
    by (simp add: world0_def local_provider_def)
  have early: "fgt (fadd (now (snd (snd ?X))) (Fin 60)) (now (world0\<lparr>now := 130\<rparr>))"
    by (simp add: clock fadd_example del: fadd.simps)
  have late: "is_double (now (world0\<lparr>now := 200\<rparr>))
              \<and> now (snd (snd ?X)) + 60 < now (world0\<lparr>now := 200\<rparr>)"
    by (simp add: clock is_double_example)
  have passed: "\<not> fgt (fadd (now (snd (snd ?X))) (Fin 60)) (now (world0\<lparr>now := 200\<rparr>))"
    by (simp add: clock fadd_example del: fadd.simps)
  from ttl_before_and_after [OF reg ttl _ call lg, of "world0\<lparr>now := 130\<rparr>"] early
  have first: "get_tools_async ''local'' False (fst (snd ?X)) (world0\<lparr>now := 130\<rparr>)
                 = (Inr [''search'', ''fetch''], fst (snd ?X), world0\<lparr>now := 130\<rparr>)"
    by simp
  from ttl_before_and_after [OF reg ttl _ call lg, of "world0\<lparr>now := 200\<rparr>"] late passed
  have "loads (snd (snd (get_tools_async ''local'' False (fst (snd ?X)) (world0\<lparr>now := 200\<rparr>))))
          = loads (world0\<lparr>now := 200\<rparr>) @ [name ?p]"
    by auto
  then have second: "loads (snd (snd (get_tools_async ''local'' False (fst (snd ?X))
                       (world0\<lparr>now := 200\<rparr>)))) = [''local'']"
    by (simp add: world0_def local_provider_def)
  from first second show ?thesis by blast
qed

text \<open>
  C3 as stated fails before the \<open>t\<close> seconds have elapsed, because the sum at line 183 is
  rounded. With a TTL of \<open>2 ^ - 70\<close> seconds and a load that returns when the clock reads
  100.5, the float sum is 100.5 itself: a call made at that very reading, no time having
  elapsed, finds the entry stale and loads again.
\<close>

lemma absorbed: "fadd (201 / 2) (Fin (1 / 2 ^ 70)) = Fin (201 / 2)"
  by code_simp

theorem absorbed_ttl_reloads:
  "get_tools_async ''local'' False (manager_with (local_provider (Some (Fin (1 / 2 ^ 70))))) world0
     = (Inr [''search'', ''fetch''],
        (manager_with (local_provider (Some (Fin (1 / 2 ^ 70)))))
          \<lparr>cache := [''local'' \<mapsto> \<lparr>tools = [''search'', ''fetch''],
                                     expires_at = Some (Fin (201 / 2))\<rparr>]\<rparr>,
        world0\<lparr>now := 201 / 2, loads := [''local'']\<rparr>) \<and>
   loads (snd (snd (get_tools_async ''local'' False
     ((manager_with (local_provider (Some (Fin (1 / 2 ^ 70)))))
        \<lparr>cache := [''local'' \<mapsto> \<lparr>tools = [''search'', ''fetch''],
                                   expires_at = Some (Fin (201 / 2))\<rparr>]\<rparr>)
     (world0\<lparr>now := 201 / 2, loads := [''local'']\<rparr>))))
     = [''local'', ''local'']"
proof -
  let ?p = "local_provider (Some (Fin (1 / 2 ^ 70)))"
  have "load ?p world0 = (Inr [''search'', ''fetch''], world0\<lparr>now := 201 / 2, loads := [''local'']\<rparr>)"
    by (simp add: load_def local_provider_def two_tools_def world0_def)
  then have first: "load_and_store ''local'' ?p (manager_with ?p) world0
      = (Inr [''search'', ''fetch''],
         (manager_with ?p)\<lparr>cache := [''local'' \<mapsto> \<lparr>tools = [''search'', ''fetch''],
                                     expires_at = Some (Fin (201 / 2))\<rparr>]\<rparr>,
         world0\<lparr>now := 201 / 2, loads := [''local'']\<rparr>)"
    using absorbed
    by (simp add: load_and_store_def expiry_def local_provider_def manager_with_def del: fadd.simps)
  have "get_tools_async ''local'' False (manager_with ?p) world0
          = load_and_store ''local'' ?p (manager_with ?p) world0"
    by (rule get_tools_async_miss) (simp_all add: manager_with_def local_provider_def cache_hit_def)
  with first have one: "get_tools_async ''local'' False (manager_with ?p) world0
      = (Inr [''search'', ''fetch''],
         (manager_with ?p)\<lparr>cache := [''local'' \<mapsto> \<lparr>tools = [''search'', ''fetch''],
                                     expires_at = Some (Fin (201 / 2))\<rparr>]\<rparr>,
         world0\<lparr>now := 201 / 2, loads := [''local'']\<rparr>)"
    by simp
  let ?m1 = "(manager_with ?p)\<lparr>cache := [''local'' \<mapsto> \<lparr>tools = [''search'', ''fetch''],
                                     expires_at = Some (Fin (201 / 2))\<rparr>]\<rparr>"
  let ?w1 = "world0\<lparr>now := 201 / 2, loads := [''local'']\<rparr>"
  have "cache_hit ''local'' False ?m1 ?w1 = None"
    by (simp add: cache_hit_def valid_def)
  moreover have "providers ?m1 ''local'' = Some ?p"
    by (simp add: manager_with_def local_provider_def)
  ultimately have "get_tools_async ''local'' False ?m1 ?w1 = load_and_store ''local'' ?p ?m1 ?w1"
    by (rule get_tools_async_miss [rotated])
  then have "loads (snd (snd (get_tools_async ''local'' False ?m1 ?w1))) = loads ?w1 @ [name ?p]"
    using load_and_store_log [of "''local''" ?p ?m1 ?w1] by (metis prod.collapse)
  then have two: "loads (snd (snd (get_tools_async ''local'' False ?m1 ?w1))) = [''local'', ''local'']"
    by (simp add: local_provider_def)
  from one two show ?thesis by blast
qed

text \<open>
  C10. A provider whose TTL is zero: \<^verbatim>\<open>if ttl\<close> at line 183 is false for \<open>0\<close>, so a completed
  load stores an entry without expiry instant. The entry is valid at every time, a later call
  without refresh returns it without loading, and the expiry computed is that of a provider
  without TTL.
\<close>

theorem zero_ttl_never_expires:
  assumes "providers m nm = Some p" and "cache_ttl p = Some (Fin 0)"
    and "get_tools_async nm r m w = (Inr ts, m', w')"
    and "loads w' = loads w @ [name p]"
  shows "cache m' nm = Some \<lparr>tools = ts, expires_at = None\<rparr> \<and>
         (\<forall>t. valid \<lparr>tools = ts, expires_at = None\<rparr> t) \<and>
         get_tools_async nm False m' w2 = (Inr ts, m', w2) \<and>
         expiry (Some (Fin 0)) (now w') = expiry None (now w')"
proof -
  from assms(4) have "loads w' \<noteq> loads w" by simp
  with assms have m': "m' = m\<lparr>cache := (cache m)(nm \<mapsto> \<lparr>tools = ts, expires_at = None\<rparr>)\<rparr>"
    using get_tools_async_loaded [of m nm p r w ts m' w'] by (simp add: expiry_def)
  have "get_tools_async nm False m' w2 = (Inr ts, m', w2)"
    using get_tools_async_hit [of m' nm p "\<lparr>tools = ts, expires_at = None\<rparr>" w2] assms(1)
    by (simp add: m' valid_def)
  then show ?thesis by (simp add: m' valid_def expiry_def)
qed

theorem zero_ttl_never_expires_witness:
  "cache (fst (snd (get_tools_async ''local'' False (manager_with (local_provider (Some (Fin 0)))) world0)))
     ''local'' = Some \<lparr>tools = [''search'', ''fetch''], expires_at = None\<rparr> \<and>
   get_tools_async ''local'' False
     (fst (snd (get_tools_async ''local'' False (manager_with (local_provider (Some (Fin 0)))) world0)))
     (world0\<lparr>now := 86500\<rparr>)
   = (Inr [''search'', ''fetch''],
      fst (snd (get_tools_async ''local'' False (manager_with (local_provider (Some (Fin 0)))) world0)),
      world0\<lparr>now := 86500\<rparr>)"
proof -
  let ?p = "local_provider (Some (Fin 0))"
  let ?m = "manager_with ?p"
  let ?X = "get_tools_async ''local'' False ?m world0"
  have reg: "providers ?m ''local'' = Some ?p"
    by (simp add: manager_with_def local_provider_def)
  have ttl: "cache_ttl ?p = Some (Fin 0)" by (simp add: local_provider_def)
  have "fst ?X = Inr [''search'', ''fetch'']"
    by (simp add: get_tools_async_def manager_with_def local_provider_def cache_hit_def
        load_and_store_def load_def two_tools_def)
  then have call: "?X = (Inr [''search'', ''fetch''], fst (snd ?X), snd (snd ?X))"
    by (simp add: prod_eq_iff)
  have lg: "loads (snd (snd ?X)) = loads world0 @ [name ?p]"
    by (simp add: get_tools_async_def manager_with_def local_provider_def cache_hit_def
        load_and_store_def load_def two_tools_def)
  from zero_ttl_never_expires [OF reg ttl call lg, of "world0\<lparr>now := 86500\<rparr>"]
  show ?thesis by blast
qed

section \<open>Failures of a load\<close>

text \<open>
  C5. A remote provider whose server factory yields no configuration when it loads
  (\<^verbatim>\<open>None\<close> or an empty mapping): \<^verbatim>\<open>load()\<close> returns the empty list and raises nothing, in
  strict mode too, and the client is not called (the world only gains the log entry). This is
  what the provider built from a DashScope spec does while the API key is empty, and the one
  built from a stdio spec while its environment factory returns \<^verbatim>\<open>None\<close>.
\<close>

theorem unconfigured_remote_loads_empty:
  "(sf w = None \<or> sf w = Some [] \<longrightarrow>
      load (MCPToolProvider n d tg ttl sf bc strict) w = (Inr [], w\<lparr>loads := loads w @ [n]\<rparr>)) \<and>
   (dashscope_api_key (settings w) = [] \<longrightarrow>
      load (build_provider client (DashScopeMCPSpec n sn tr d tg ttl)) w
        = (Inr [], w\<lparr>loads := loads w @ [n]\<rparr>)) \<and>
   (ef w = None \<longrightarrow>
      load (build_provider client (StdIOMCPSpec n sn cmd as ef d tg ttl)) w
        = (Inr [], w\<lparr>loads := loads w @ [n]\<rparr>))"
  by (auto simp: load_def)

theorem unconfigured_remote_loads_empty_witness:
  "load (MCPToolProvider ''weather'' [] [] None (\<lambda>w. Some []) answering True) world0
     = (Inr [], world0\<lparr>loads := loads world0 @ [''weather'']\<rparr>) \<and>
   load (build_provider answering
           (DashScopeMCPSpec ''weather'' ''weather'' ''sse'' [] [''weather''] None)) world0
     = (Inr [], world0\<lparr>loads := loads world0 @ [''weather'']\<rparr>) \<and>
   load (build_provider answering
           (StdIOMCPSpec ''amap_maps'' ''amap-maps'' ''npx'' [''-y'', ''@amap/amap-maps-mcp-server'']
              (\<lambda>w. if amap_maps_api_key (settings w) = [] then None
                    else Some [(''AMAP_MAPS_API_KEY'', amap_maps_api_key (settings w))])
              [] [''geospatial'', ''maps''] None)) world0
     = (Inr [], world0\<lparr>loads := loads world0 @ [''amap_maps'']\<rparr>)"
proof -
  note empty_mapping = unconfigured_remote_loads_empty
    [where sf = "\<lambda>w. Some []" and w = world0 and n = "''weather''" and d = "[]" and tg = "[]"
       and ttl = None and bc = "answering :: config \<Rightarrow> (string list, unit) action"
       and strict = True]
  note no_api_key = unconfigured_remote_loads_empty
    [where w = world0 and n = "''weather''" and sn = "''weather''" and tr = "''sse''"
       and d = "[]" and tg = "[''weather'']" and ttl = None
       and client = "answering :: config \<Rightarrow> (string list, unit) action"]
  note no_env = unconfigured_remote_loads_empty
    [where w = world0 and n = "''amap_maps''" and sn = "''amap-maps''" and cmd = "''npx''"
       and as = "[''-y'', ''@amap/amap-maps-mcp-server'']"
       and ef = "\<lambda>w. if amap_maps_api_key (settings w) = [] then None
                     else Some [(''AMAP_MAPS_API_KEY'', amap_maps_api_key (settings w))]"
       and d = "[]" and tg = "[''geospatial'', ''maps'']" and ttl = None
       and client = "answering :: config \<Rightarrow> (string list, unit) action"]
  have key: "dashscope_api_key (settings world0) = []" by (simp add: world0_def)
  have env: "(\<lambda>w. if amap_maps_api_key (settings w) = [] then None
               else Some [(''AMAP_MAPS_API_KEY'', amap_maps_api_key (settings w))]) world0 = None"
    by (simp add: world0_def)
  from empty_mapping have "load (MCPToolProvider ''weather'' [] [] None (\<lambda>w. Some [])
                                   (answering :: config \<Rightarrow> (string list, unit) action) True) world0
      = (Inr [], world0\<lparr>loads := loads world0 @ [''weather'']\<rparr>)"
    by blast
  moreover from no_api_key key
  have "load (build_provider (answering :: config \<Rightarrow> (string list, unit) action)
           (DashScopeMCPSpec ''weather'' ''weather'' ''sse'' [] [''weather''] None)) world0
     = (Inr [], world0\<lparr>loads := loads world0 @ [''weather'']\<rparr>)"
    by blast
  moreover from no_env env
  have "load (build_provider (answering :: config \<Rightarrow> (string list, unit) action)
           (StdIOMCPSpec ''amap_maps'' ''amap-maps'' ''npx'' [''-y'', ''@amap/amap-maps-mcp-server'']
              (\<lambda>w. if amap_maps_api_key (settings w) = [] then None
                    else Some [(''AMAP_MAPS_API_KEY'', amap_maps_api_key (settings w))])
              [] [''geospatial'', ''maps''] None)) world0
     = (Inr [], world0\<lparr>loads := loads world0 @ [''amap_maps'']\<rparr>)"
    by blast
  ultimately show ?thesis by blast
qed

text \<open>
  C6. A remote provider whose client call fails, that is raises an exception \<open>exc\<close> of class
  \<^verbatim>\<open>Exception\<close>: in strict mode \<^verbatim>\<open>load()\<close> raises a \<^verbatim>\<open>ToolManagerError\<close> chained to \<open>exc\<close>,
  otherwise it returns the empty list; a caller of \<^verbatim>\<open>get_tools_async\<close> whose call reaches
  the load receives exactly that.
\<close>

theorem transport_failure_policy:
  assumes "sf w = Some config" and "config \<noteq> []" and "bc config w = (Inl exc, w')"
    and "is_Exception exc"
  shows "load (MCPToolProvider n d tg ttl sf bc strict) w =
           (if strict then Inl (ToolManagerError (''Failed to load tools for '' @ n) (Some exc))
            else Inr [],
            w'\<lparr>loads := loads w @ [n]\<rparr>) \<and>
         (providers m nm = Some (MCPToolProvider n d tg ttl sf bc strict) \<and> cache_hit nm r m w = None
            \<longrightarrow> fst (get_tools_async nm r m w) =
                  (if strict then Inl (ToolManagerError (''Failed to load tools for '' @ n) (Some exc))
                   else Inr []))"
  using assms by (auto simp: load_def get_tools_async_def load_and_store_def)

theorem transport_failure_policy_witness:
  "load (MCPToolProvider ''weather'' [] [] None (\<lambda>w. Some [(''weather'', Dict [])]) unreachable True)
     world0
   = (Inl (ToolManagerError ''Failed to load tools for weather''
             (Some (PyException ''ConnectError''))),
      world0\<lparr>loads := [''weather'']\<rparr>) \<and>
   fst (get_tools_async ''weather'' False
          (manager_with (MCPToolProvider ''weather'' [] [] None
                           (\<lambda>w. Some [(''weather'', Dict [])]) unreachable True))
          world0)
   = Inl (ToolManagerError ''Failed to load tools for weather''
            (Some (PyException ''ConnectError''))) \<and>
   load (MCPToolProvider ''weather'' [] [] None (\<lambda>w. Some [(''weather'', Dict [])]) unreachable False)
     world0
   = (Inr [], world0\<lparr>loads := [''weather'']\<rparr>) \<and>
   fst (get_tools_async ''weather'' False
          (manager_with (MCPToolProvider ''weather'' [] [] None
                           (\<lambda>w. Some [(''weather'', Dict [])]) unreachable False))
          world0)
   = Inr []"
proof -
  let ?p = "\<lambda>strict. MCPToolProvider ''weather'' [] [] None
                       (\<lambda>w. Some [(''weather'', Dict [])])
                       (unreachable :: config \<Rightarrow> (string list, unit) action) strict"
  note strict_mode = transport_failure_policy
    [where sf = "\<lambda>w. Some [(''weather'', Dict [])]" and w = world0
       and config = "[(''weather'', Dict [])]"
       and bc = "unreachable :: config \<Rightarrow> (string list, unit) action"
       and exc = "PyException ''ConnectError''" and w' = world0
       and n = "''weather''" and d = "[]" and tg = "[]" and ttl = None and strict = True
       and m = "manager_with (?p True)" and nm = "''weather''" and r = False]
  note default_mode = transport_failure_policy
    [where sf = "\<lambda>w. Some [(''weather'', Dict [])]" and w = world0
       and config = "[(''weather'', Dict [])]"
       and bc = "unreachable :: config \<Rightarrow> (string list, unit) action"
       and exc = "PyException ''ConnectError''" and w' = world0
       and n = "''weather''" and d = "[]" and tg = "[]" and ttl = None and strict = False
       and m = "manager_with (?p False)" and nm = "''weather''" and r = False]
  have "providers (manager_with (?p strict)) ''weather'' = Some (?p strict)"
    "cache_hit ''weather'' False (manager_with (?p strict)) world0 = None" for strict
    by (simp_all add: manager_with_def cache_hit_def)
  with strict_mode default_mode show ?thesis by (simp add: unreachable_def world0_def)
qed

text \<open>
  An exception outside \<^verbatim>\<open>Exception\<close>, such as the cancellation of the calling task, is not a
  failure that line 95 handles: it leaves \<^verbatim>\<open>load()\<close> as it is in both modes.
\<close>

lemma base_exception_not_caught:
  assumes "sf w = Some config" and "config \<noteq> []" and "bc config w = (Inl exc, w')"
    and "\<not> is_Exception exc"
  shows "load (MCPToolProvider n d tg ttl sf bc strict) w = (Inl exc, w'\<lparr>loads := loads w @ [n]\<rparr>)"
  using assms by (simp add: load_def)

lemma cancelled_call_example:
  "load (MCPToolProvider ''weather'' [] [] None (\<lambda>w. Some [(''weather'', Dict [])]) cancelled strict)
     world0
   = (Inl (PyBaseException ''CancelledError''), world0\<lparr>loads := loads world0 @ [''weather'']\<rparr>)"
  by (rule base_exception_not_caught [where config = "[(''weather'', Dict [])]"])
    (simp_all add: cancelled_def)

text \<open>
  C8, as the code has it. A local provider whose builder raises \<open>exc\<close>: a call that reaches
  the load (a refresh, or no valid entry) raises, through \<^verbatim>\<open>get_tools_async\<close> and through the
  blocking \<^verbatim>\<open>get_tools\<close>, the exception that leaves the coroutine \<^verbatim>\<open>_load\<close>: \<open>exc\<close> itself
  unless \<open>exc\<close> is a \<^verbatim>\<open>StopIteration\<close>, and then a \<^verbatim>\<open>RuntimeError\<close> chained to it. In every
  case the manager is the one before the call: no entry is created and an entry already there
  is kept as it was.
\<close>

theorem builder_exception_propagates:
  assumes "providers m nm = Some (CallableToolProvider n d tg ttl b)"
    and "b w = (Inl exc, w')" and "cache_hit nm r m w = None"
  shows "get_tools_async nm r m w
           = (Inl (leaving_coroutine exc), m, w'\<lparr>loads := loads w @ [n]\<rparr>) \<and>
         get_tools False nm r m w
           = (Inl (leaving_coroutine exc), m, w'\<lparr>loads := loads w @ [n]\<rparr>) \<and>
         (exc \<noteq> StopIteration \<longrightarrow> leaving_coroutine exc = exc) \<and>
         (exc = StopIteration \<longrightarrow>
            leaving_coroutine exc
              = RuntimeError ''coroutine raised StopIteration'' (Some StopIteration))"
proof -
  have "exc \<noteq> StopIteration \<longrightarrow> leaving_coroutine exc = exc" by (cases exc) simp_all
  then show ?thesis
    using assms by (simp add: get_tools_def get_tools_async_def load_and_store_def load_def)
qed

theorem builder_exception_propagates_witness:
  "get_tools_async ''broken'' True
     \<lparr>providers = [''broken'' \<mapsto> CallableToolProvider ''broken'' [] [] None broken],
      cache = [''broken'' \<mapsto> \<lparr>tools = [''old''], expires_at = None\<rparr>]\<rparr> world0
   = (Inl (PyException ''ValueError''),
      \<lparr>providers = [''broken'' \<mapsto> CallableToolProvider ''broken'' [] [] None broken],
       cache = [''broken'' \<mapsto> \<lparr>tools = [''old''], expires_at = None\<rparr>]\<rparr>,
      world0\<lparr>loads := [''broken'']\<rparr>) \<and>
   get_tools False ''local'' False
     (manager_with (CallableToolProvider ''local'' [] [] None exhausted)) world0
   = (Inl (RuntimeError ''coroutine raised StopIteration'' (Some StopIteration)),
      manager_with (CallableToolProvider ''local'' [] [] None exhausted),
      world0\<lparr>loads := [''local'']\<rparr>)"
proof -
  let ?m = "\<lparr>providers = [''broken'' \<mapsto> CallableToolProvider ''broken'' [] [] None broken],
            cache = [''broken'' \<mapsto> \<lparr>tools = [''old''], expires_at = None\<rparr>]\<rparr>
            :: (string, unit) ToolManager"
  have h1: "providers ?m ''broken'' = Some (CallableToolProvider ''broken'' [] [] None broken)"
    by simp
  have h2: "(broken :: (string list option, unit) action) world0
              = (Inl (PyException ''ValueError''), world0)"
    by (simp add: broken_def)
  have h3: "cache_hit ''broken'' True ?m world0 = None" by (simp add: cache_hit_def)
  let ?q = "CallableToolProvider ''local'' [] [] None exhausted :: (string, unit) ToolProvider"
  have g1: "providers (manager_with ?q) ''local'' = Some ?q" by (simp add: manager_with_def)
  have g2: "(exhausted :: (string list option, unit) action) world0 = (Inl StopIteration, world0)"
    by (simp add: exhausted_def)
  have g3: "cache_hit ''local'' False (manager_with ?q) world0 = None"
    by (simp add: cache_hit_def manager_with_def)
  from builder_exception_propagates [OF h1 h2 h3] builder_exception_propagates [OF g1 g2 g3]
  show ?thesis by (simp add: world0_def)
qed

text \<open>
  C8 as stated fails for a builder that raises \<^verbatim>\<open>StopIteration\<close>: the caller does not get
  that exception but the \<^verbatim>\<open>RuntimeError\<close> that Python raises in its place when it leaves the
  coroutine.
\<close>

theorem stop_iteration_is_replaced:
  "(exhausted :: (string list option, unit) action) world0 = (Inl StopIteration, world0) \<and>
   fst (get_tools_async ''local'' False
          (manager_with (CallableToolProvider ''local'' [] [] None exhausted)
             :: (string, unit) ToolManager) world0)
     = Inl (RuntimeError ''coroutine raised StopIteration'' (Some StopIteration)) \<and>
   cache (fst (snd (get_tools_async ''local'' False
          (manager_with (CallableToolProvider ''local'' [] [] None exhausted)
             :: (string, unit) ToolManager) world0))) ''local'' = None"
  by (simp add: exhausted_def get_tools_async_def manager_with_def cache_hit_def
      load_and_store_def load_def)

section \<open>Registration, unknown names and the blocking entry point\<close>

text \<open>
  C7. Registering under a name that is already registered, without override, raises a
  \<^verbatim>\<open>ToolManagerError\<close> and leaves the manager (registry and cache) as it is. With override, or
  under a fresh name, the provider is stored under its name and the cache entry of that name
  is removed; the entries of other names stay.
\<close>

theorem register_provider_override:
  "(name p \<in> dom (providers m) \<and> \<not> override \<longrightarrow>
      (\<exists>msg. register_provider p override m = (Inl (ToolManagerError msg None), m))) \<and>
   (name p \<notin> dom (providers m) \<or> override \<longrightarrow>
      (\<exists>m'. register_provider p override m = (Inr (), m')
          \<and> providers m' = (providers m)(name p \<mapsto> p)
          \<and> cache m' = (cache m)(name p := None)))"
  by (auto simp: register_provider_def)

theorem register_provider_override_witness:
  "(\<exists>msg. register_provider (local_provider (Some (Fin 5))) False (manager_with (local_provider None))
            = (Inl (ToolManagerError msg None), manager_with (local_provider None))) \<and>
   (\<exists>m'. register_provider (local_provider (Some (Fin 5))) True (manager_with (local_provider None))
            = (Inr (), m')
        \<and> providers m' = (providers (manager_with (local_provider None)))
                            (name (local_provider (Some (Fin 5))) \<mapsto> local_provider (Some (Fin 5)))
        \<and> cache m' = (cache (manager_with (local_provider None)))
                        (name (local_provider (Some (Fin 5))) := None))"
proof -
  have "name (local_provider (Some (Fin 5))) \<in> dom (providers (manager_with (local_provider None)))"
    by (simp add: manager_with_def local_provider_def)
  with register_provider_override
         [of "local_provider (Some (Fin 5))" "manager_with (local_provider None)" False]
       register_provider_override
         [of "local_provider (Some (Fin 5))" "manager_with (local_provider None)" True]
  show ?thesis by blast
qed

text \<open>
  C9. The blocking \<^verbatim>\<open>get_tools\<close> called while an event loop is running raises a
  \<^verbatim>\<open>ToolManagerError\<close> and leaves manager and world untouched: no provider is looked up, no
  cache entry read, no load executed. With no loop running it does what \<^verbatim>\<open>get_tools_async\<close>
  does; in particular a call that reaches a load which returns \<open>ts\<close> returns \<open>ts\<close>.
\<close>

theorem sync_get_tools_misuse:
  "get_tools True nm r m w = (Inl misuse, m, w) \<and>
   (\<exists>msg. misuse = ToolManagerError msg None) \<and>
   get_tools False nm r m w = get_tools_async nm r m w \<and>
   (providers m nm = Some p \<and> cache_hit nm r m w = None \<and> load p w = (Inr ts, w') \<longrightarrow>
      fst (get_tools False nm r m w) = Inr ts \<and> snd (snd (get_tools False nm r m w)) = w')"
  by (auto simp: get_tools_def misuse_def get_tools_async_def load_and_store_def)

theorem sync_get_tools_misuse_witness:
  "get_tools True ''local'' False (manager_with (local_provider None)) world0
     = (Inl misuse, manager_with (local_provider None), world0) \<and>
   fst (get_tools False ''local'' False (manager_with (local_provider None)) world0)
     = Inr [''search'', ''fetch'']"
proof -
  let ?p = "local_provider None"
  have h: "providers (manager_with ?p) ''local'' = Some ?p \<and>
           cache_hit ''local'' False (manager_with ?p) world0 = None \<and>
           load ?p world0 = (Inr [''search'', ''fetch''],
                             world0\<lparr>now := now world0 + 1/2, loads := loads world0 @ [''local'']\<rparr>)"
    by (simp add: manager_with_def local_provider_def cache_hit_def load_def two_tools_def)
  from sync_get_tools_misuse
         [of "''local''" False "manager_with ?p" world0 ?p "[''search'', ''fetch'']"
             "world0\<lparr>now := now world0 + 1/2, loads := loads world0 @ [''local'']\<rparr>"] h
  show ?thesis by blast
qed

text \<open>
  C4, as the code has it. For a name without registered provider, \<^verbatim>\<open>get_tools_async\<close>,
  \<^verbatim>\<open>get_tools\<close> and \<^verbatim>\<open>describe\<close> raise a \<^verbatim>\<open>ToolManagerError\<close> and change nothing; when the
  name has no spec either, \<^verbatim>\<open>ensure_tool_registered\<close> and the registry's \<^verbatim>\<open>get_tools\<close> and
  \<^verbatim>\<open>get_tools_async\<close> raise one as well. \<^verbatim>\<open>clear_cache\<close> raises nothing for such a name: it
  returns normally and leaves the registry as it is.
\<close>

theorem unknown_name_operations:
  assumes "providers m nm = None"
  shows "get_tools_async nm r m w = (Inl (unknown_provider nm), m, w) \<and>
         get_tools False nm r m w = (Inl (unknown_provider nm), m, w) \<and>
         get_tools True nm r m w = (Inl misuse, m, w) \<and>
         describe nm m w = Inl (unknown_provider nm) \<and>
         (specs nm = None \<longrightarrow>
            ensure_tool_registered client specs nm m = (Inl (no_spec nm), m) \<and>
            registry_get_tools client specs il nm r m w = (Inl (no_spec nm), m, w) \<and>
            registry_get_tools_async client specs nm r m w = (Inl (no_spec nm), m, w)) \<and>
         fst (clear_cache (Some nm) m) = Inr () \<and>
         providers (snd (clear_cache (Some nm) m)) = providers m"
  using assms
  by (auto simp: get_tools_def get_tools_async_def describe_def ensure_tool_registered_def
      is_registered_def registry_get_tools_def registry_get_tools_async_def clear_cache_def)

theorem unknown_name_operations_witness:
  "get_tools_async ''ghost'' False (ToolManager_init :: (string, unit) ToolManager) world0
     = (Inl (unknown_provider ''ghost''), ToolManager_init, world0) \<and>
   describe ''ghost'' (ToolManager_init :: (string, unit) ToolManager) world0
     = Inl (unknown_provider ''ghost'') \<and>
   registry_get_tools answering Map.empty False ''ghost'' False
       (ToolManager_init :: (string, unit) ToolManager) world0
     = (Inl (no_spec ''ghost''), ToolManager_init, world0)"
proof -
  have "providers (ToolManager_init :: (string, unit) ToolManager) ''ghost'' = None"
    by (simp add: ToolManager_init_def)
  from unknown_name_operations [OF this, of False world0 Map.empty answering False]
  show ?thesis by simp
qed

text \<open>
  C4 as stated fails for \<^verbatim>\<open>clear_cache\<close>: on a manager without any provider,
  \<^verbatim>\<open>clear_cache("ghost")\<close> returns normally.
\<close>

theorem clear_cache_unknown_counterexample:
  "providers (ToolManager_init :: (string, unit) ToolManager) ''ghost'' = None \<and>
   clear_cache (Some ''ghost'') (ToolManager_init :: (string, unit) ToolManager)
     = (Inr (), ToolManager_init)"
  by (simp add: ToolManager_init_def clear_cache_def)

section \<open>Callers running concurrently\<close>

lemma step_out_of_range: "length (tasks s) \<le> i \<Longrightarrow> step i s = s"
  by (simp add: step_def)

lemma step_Start_hit:
  "i < length (tasks s) \<Longrightarrow> t_pc (tasks s ! i) = Start
   \<Longrightarrow> providers (manager s) (t_name (tasks s ! i)) = Some p
   \<Longrightarrow> cache_hit (t_name (tasks s ! i)) (t_refresh (tasks s ! i)) (manager s) (world s) = Some ts
   \<Longrightarrow> step i s = set_pc i (Done (Inr ts)) s"
  by (simp add: step_def)

lemma step_Start_miss:
  "i < length (tasks s) \<Longrightarrow> t_pc (tasks s ! i) = Start
   \<Longrightarrow> providers (manager s) (t_name (tasks s ! i)) = Some p
   \<Longrightarrow> cache_hit (t_name (tasks s ! i)) (t_refresh (tasks s ! i)) (manager s) (world s) = None
   \<Longrightarrow> step i s = set_pc i (WaitLock p) s"
  by (simp add: step_def)

lemma step_WaitLock_blocked:
  "i < length (tasks s) \<Longrightarrow> t_pc (tasks s ! i) = WaitLock q
   \<Longrightarrow> t_name (tasks s ! i) \<in> locked s \<Longrightarrow> step i s = s"
  by (simp add: step_def)

lemma step_WaitLock_hit:
  "i < length (tasks s) \<Longrightarrow> t_pc (tasks s ! i) = WaitLock q
   \<Longrightarrow> t_name (tasks s ! i) \<notin> locked s
   \<Longrightarrow> cache_hit (t_name (tasks s ! i)) (t_refresh (tasks s ! i)) (manager s) (world s) = Some ts
   \<Longrightarrow> step i s = set_pc i (Done (Inr ts)) s"
  by (simp add: step_def)

lemma step_WaitLock_miss:
  "i < length (tasks s) \<Longrightarrow> t_pc (tasks s ! i) = WaitLock q
   \<Longrightarrow> t_name (tasks s ! i) \<notin> locked s
   \<Longrightarrow> cache_hit (t_name (tasks s ! i)) (t_refresh (tasks s ! i)) (manager s) (world s) = None
   \<Longrightarrow> step i s = (set_pc i (Loading q) s)\<lparr>locked := insert (t_name (tasks s ! i)) (locked s)\<rparr>"
  by (simp add: step_def)

lemma step_Loading:
  "i < length (tasks s) \<Longrightarrow> t_pc (tasks s ! i) = Loading q
   \<Longrightarrow> load_and_store (t_name (tasks s ! i)) q (manager s) (world s) = (r, m', w')
   \<Longrightarrow> step i s = (set_pc i (Done r) s)
         \<lparr>manager := m', world := w', locked := locked s - {t_name (tasks s ! i)}\<rparr>"
  by (simp add: step_def)

lemma step_Done:
  "i < length (tasks s) \<Longrightarrow> t_pc (tasks s ! i) = Done r \<Longrightarrow> step i s = s"
  by (simp add: step_def)

text \<open>
  A caller alone in the loop needs at most three steps, and they do what \<open>get_tools_async\<close>
  above does: the step model and the single-caller function agree.
\<close>

lemma lone_caller:
  "results (run [Run 0, Run 0, Run 0] (start m w [(nm, r)])) = [Some (fst (get_tools_async nm r m w))] \<and>
   manager (run [Run 0, Run 0, Run 0] (start m w [(nm, r)])) = fst (snd (get_tools_async nm r m w)) \<and>
   world (run [Run 0, Run 0, Run 0] (start m w [(nm, r)])) = snd (snd (get_tools_async nm r m w))"
proof (cases "providers m nm")
  case None
  then show ?thesis
    by (simp add: start_def step_def set_pc_def results_def get_tools_async_def)
next
  case (Some p)
  show ?thesis
  proof (cases "cache_hit nm r m w")
    case hit: (Some ts)
    with Some show ?thesis
      by (simp add: start_def step_def set_pc_def results_def get_tools_async_def)
  next
    case None
    obtain res m' w' where ls: "load_and_store nm p m w = (res, m', w')" by (metis prod_cases3)
    with Some None show ?thesis
      by (simp add: start_def step_def set_pc_def results_def get_tools_async_def)
  qed
qed

lemma set_pc_simps:
  "manager (set_pc i c s) = manager s" "world (set_pc i c s) = world s"
  "locked (set_pc i c s) = locked s" "length (tasks (set_pc i c s)) = length (tasks s)"
  by (simp_all add: set_pc_def)

lemma set_pc_nth:
  "j < length (tasks s) \<Longrightarrow>
     tasks (set_pc i c s) ! j = (if i = j then (tasks s ! j)\<lparr>t_pc := c\<rparr> else tasks s ! j)"
  by (simp add: set_pc_def nth_list_update)


lemma step_Start_unknown:
  "i < length (tasks s) \<Longrightarrow> t_pc (tasks s ! i) = Start
   \<Longrightarrow> providers (manager s) (t_name (tasks s ! i)) = None
   \<Longrightarrow> step i s = set_pc i (Done (Inl (unknown_provider (t_name (tasks s ! i))))) s"
  by (simp add: step_def)

lemma set_pc_name:
  "j < length (tasks s) \<Longrightarrow> t_name (tasks (set_pc i c s) ! j) = t_name (tasks s ! j)"
  by (simp add: set_pc_nth)

lemma set_pc_pc:
  "j < length (tasks s) \<Longrightarrow>
     t_pc (tasks (set_pc i c s) ! j) = (if i = j then c else t_pc (tasks s ! j))"
  by (simp add: set_pc_nth)

lemma step_length: "length (tasks (step i s)) = length (tasks s)"
  by (auto simp: step_def set_pc_def Let_def split: pc.splits option.splits prod.splits)

lemma run_length: "length (tasks (run evs s)) = length (tasks s)"
proof (induction evs arbitrary: s)
  case Nil
  then show ?case by simp
next
  case (Cons ev evs)
  then show ?case by (cases ev) (simp_all add: step_length)
qed

lemma results_nth:
  "i < length (tasks s) \<Longrightarrow>
     results s ! i = (case t_pc (tasks s ! i) of Done r \<Rightarrow> Some r | _ \<Rightarrow> None)"
  by (simp add: results_def)

lemma results_length: "length (results s) = length (tasks s)"
  by (simp add: results_def)

lemma before_load_results:
  assumes "before_load nm base s" and "i < length (tasks s)"
  shows "results s ! i = None"
proof -
  from assms have "\<not> is_done (t_pc (tasks s ! i))" by (simp add: before_load_def)
  then show ?thesis using assms(2) by (cases "t_pc (tasks s ! i)") (simp_all add: results_nth)
qed

lemma after_load_results:
  assumes "after_load nm lg e s" and "i < length (tasks s)"
  shows "results s ! i = None \<or> results s ! i = Some (Inr (tools e))"
proof -
  from assms have "done_with (tools e) (t_pc (tasks s ! i))" by (simp add: after_load_def)
  then show ?thesis using assms(2) by (cases "t_pc (tasks s ! i)") (simp_all add: results_nth)
qed

lemma sum_list_upd:
  "i < length xs \<Longrightarrow> sum_list (xs[i := v]) + xs ! i = sum_list xs + (v::nat)"
  by (induction xs arbitrary: i) (auto simp: nth_Cons split: nat.splits)

lemma todo_set_pc:
  assumes "i < length (tasks s)"
  shows "todo (set_pc i c s) + weight (t_pc (tasks s ! i)) = todo s + weight c"
proof -
  let ?ws = "map (\<lambda>t. weight (t_pc t)) (tasks s)"
  have "map (\<lambda>t. weight (t_pc t)) (tasks (set_pc i c s)) = ?ws[i := weight c]"
    by (simp add: set_pc_def map_update)
  then have "todo (set_pc i c s) + ?ws ! i = sum_list ?ws + weight c"
    using sum_list_upd [of i ?ws "weight c"] assms by (simp add: todo_def)
  then show ?thesis using assms by (simp add: todo_def)
qed

lemma todo_cong: "tasks s' = tasks s \<Longrightarrow> todo s' = todo s"
  by (simp add: todo_def)

lemma todo_pos:
  assumes "0 < todo s"
  shows "\<exists>i<length (tasks s). 0 < weight (t_pc (tasks s ! i))"
proof (rule ccontr)
  assume "\<not> ?thesis"
  then have "\<forall>n \<in> set (map (\<lambda>t. weight (t_pc t)) (tasks s)). n = 0"
    by (auto simp: in_set_conv_nth)
  then have "todo s = 0" unfolding todo_def by (simp only: sum_list_eq_0_iff)
  with assms show False by simp
qed

lemma todo_zero:
  assumes "todo s = 0"
  shows "None \<notin> set (results s)"
proof
  assume "None \<in> set (results s)"
  then obtain i where i: "i < length (tasks s)" and r: "results s ! i = None"
    by (auto simp: in_set_conv_nth results_length)
  from assms have "\<forall>n \<in> set (map (\<lambda>t. weight (t_pc t)) (tasks s)). n = 0"
    unfolding todo_def by (simp only: sum_list_eq_0_iff)
  with i have "weight (t_pc (tasks s ! i)) = 0" by simp
  then obtain x where "t_pc (tasks s ! i) = Done x" by (cases "t_pc (tasks s ! i)") simp_all
  with r i show False by (simp add: results_nth)
qed


subsection \<open>What one step does\<close>

lemma step_cases:
  assumes "i < length (tasks s)"
  obtains
    (same) "step i s = s"
      "is_done (t_pc (tasks s ! i)) \<or>
       (\<not> is_loading (t_pc (tasks s ! i)) \<and> t_name (tasks s ! i) \<in> locked s)"
  | (move) c where "step i s = set_pc i c s"
      "\<not> is_loading (t_pc (tasks s ! i))" "\<not> is_loading c"
      "weight c < weight (t_pc (tasks s ! i))"
  | (acquire) q where "t_pc (tasks s ! i) = WaitLock q" "t_name (tasks s ! i) \<notin> locked s"
      "step i s = (set_pc i (Loading q) s)\<lparr>locked := insert (t_name (tasks s ! i)) (locked s)\<rparr>"
  | (release) q r m' w' where "t_pc (tasks s ! i) = Loading q"
      "step i s = (set_pc i (Done r) s)
         \<lparr>manager := m', world := w', locked := locked s - {t_name (tasks s ! i)}\<rparr>"
proof (cases "t_pc (tasks s ! i)")
  case Start
  let ?nm = "t_name (tasks s ! i)"
  show ?thesis
  proof (cases "providers (manager s) ?nm")
    case None
    show ?thesis
      by (rule move [of "Done (Inl (unknown_provider ?nm))"])
        (simp_all add: step_Start_unknown [OF assms Start None] Start)
  next
    case (Some p)
    show ?thesis
    proof (cases "cache_hit ?nm (t_refresh (tasks s ! i)) (manager s) (world s)")
      case None
      show ?thesis
        by (rule move [of "WaitLock p"]) (simp_all add: step_Start_miss [OF assms Start Some None] Start)
    next
      case (Some ts)
      show ?thesis
        by (rule move [of "Done (Inr ts)"])
          (simp_all add: step_Start_hit [OF assms Start \<open>providers (manager s) ?nm = Some p\<close> Some] Start)
    qed
  qed
next
  case (WaitLock q)
  let ?nm = "t_name (tasks s ! i)"
  show ?thesis
  proof (cases "?nm \<in> locked s")
    case True
    show ?thesis
      by (rule same) (simp_all add: step_WaitLock_blocked [OF assms WaitLock True] WaitLock True)
  next
    case False
    show ?thesis
    proof (cases "cache_hit ?nm (t_refresh (tasks s ! i)) (manager s) (world s)")
      case None
      show ?thesis
        by (rule acquire [OF WaitLock False]) (rule step_WaitLock_miss [OF assms WaitLock False None])
    next
      case (Some ts)
      show ?thesis
        by (rule move [of "Done (Inr ts)"])
          (simp_all add: step_WaitLock_hit [OF assms WaitLock False Some] WaitLock)
    qed
  qed
next
  case (Loading q)
  obtain r m' w' where "load_and_store (t_name (tasks s ! i)) q (manager s) (world s) = (r, m', w')"
    by (metis prod_cases3)
  from step_Loading [OF assms Loading this] show ?thesis by (rule release [OF Loading])
next
  case (Done r)
  show ?thesis by (rule same) (simp_all add: step_Done [OF assms Done] Done)
qed

subsection \<open>The lock\<close>

lemma start_pc: "i < length calls \<Longrightarrow> t_pc (tasks (start m w calls) ! i) = Start"
  by (simp add: start_def split_beta)

lemma start_simps:
  "length (tasks (start m w calls)) = length calls" "locked (start m w calls) = {}"
  "manager (start m w calls) = m" "world (start m w calls) = w"
  by (simp_all add: start_def)

lemma lock_inv_start: "lock_inv (start m w calls)"
  unfolding lock_inv_def by (simp add: start_pc start_simps cong: conj_cong)

lemma lock_inv_move:
  assumes "lock_inv s" and "\<not> is_loading (t_pc (tasks s ! i))" and "\<not> is_loading c"
  shows "lock_inv (set_pc i c s)"
proof -
  have ld: "is_loading (t_pc (tasks (set_pc i c s) ! j)) = is_loading (t_pc (tasks s ! j))"
    if "j < length (tasks s)" for j
    using that assms(2,3) by (auto simp: set_pc_pc)
  show ?thesis
    using assms(1) unfolding lock_inv_def
    by (simp add: set_pc_simps set_pc_name ld cong: conj_cong)
qed

lemma lock_inv_acquire:
  assumes inv: "lock_inv s" and i: "i < length (tasks s)"
    and free: "t_name (tasks s ! i) \<notin> locked s"
  shows "lock_inv ((set_pc i (Loading q) s)\<lparr>locked := insert (t_name (tasks s ! i)) (locked s)\<rparr>)"
proof -
  let ?nm = "t_name (tasks s ! i)"
  let ?L = "\<lambda>j. is_loading (t_pc (tasks s ! j))"
  let ?N = "\<lambda>j. t_name (tasks s ! j)"
  from inv have uniq: "\<And>j k. j < length (tasks s) \<Longrightarrow> k < length (tasks s) \<Longrightarrow> ?L j \<Longrightarrow> ?L k
                         \<Longrightarrow> ?N j = ?N k \<Longrightarrow> j = k"
    and held: "\<And>x. x \<in> locked s \<longleftrightarrow> (\<exists>j<length (tasks s). ?L j \<and> ?N j = x)"
    unfolding lock_inv_def by blast+
  have none: "\<not> ?L j" if "j < length (tasks s)" "?N j = ?nm" for j
    using held [of ?nm] free that by blast
  have ld: "is_loading (t_pc (tasks (set_pc i (Loading q) s) ! j)) = (j = i \<or> ?L j)"
    if "j < length (tasks s)" for j
    using that by (auto simp: set_pc_pc)
  have u: "j = k" if "j < length (tasks s)" "k < length (tasks s)" "j = i \<or> ?L j" "k = i \<or> ?L k"
    "?N j = ?N k" for j k
    using that uniq [of j k] none [of j] none [of k] by metis
  have h: "x \<in> insert ?nm (locked s) \<longleftrightarrow> (\<exists>j<length (tasks s). (j = i \<or> ?L j) \<and> ?N j = x)" for x
    using held [of x] i by auto
  show ?thesis
    unfolding lock_inv_def
    apply (simp add: set_pc_simps set_pc_name ld cong: conj_cong)
    using u h by blast
qed

lemma lock_inv_release:
  assumes inv: "lock_inv s" and i: "i < length (tasks s)"
    and li: "is_loading (t_pc (tasks s ! i))"
  shows "lock_inv ((set_pc i (Done r) s)
           \<lparr>manager := m', world := w', locked := locked s - {t_name (tasks s ! i)}\<rparr>)"
proof -
  let ?nm = "t_name (tasks s ! i)"
  let ?L = "\<lambda>j. is_loading (t_pc (tasks s ! j))"
  let ?N = "\<lambda>j. t_name (tasks s ! j)"
  from inv have uniq: "\<And>j k. j < length (tasks s) \<Longrightarrow> k < length (tasks s) \<Longrightarrow> ?L j \<Longrightarrow> ?L k
                         \<Longrightarrow> ?N j = ?N k \<Longrightarrow> j = k"
    and held: "\<And>x. x \<in> locked s \<longleftrightarrow> (\<exists>j<length (tasks s). ?L j \<and> ?N j = x)"
    unfolding lock_inv_def by blast+
  have ld: "is_loading (t_pc (tasks (set_pc i (Done r) s) ! j)) = (j \<noteq> i \<and> ?L j)"
    if "j < length (tasks s)" for j
    using that by (auto simp: set_pc_pc)
  have u: "j = k" if "j < length (tasks s)" "k < length (tasks s)" "j \<noteq> i \<and> ?L j" "k \<noteq> i \<and> ?L k"
    "?N j = ?N k" for j k
    using that uniq [of j k] by blast
  have h: "x \<in> locked s - {?nm} \<longleftrightarrow> (\<exists>j<length (tasks s). (j \<noteq> i \<and> ?L j) \<and> ?N j = x)" for x
  proof
    assume "x \<in> locked s - {?nm}"
    then have "x \<noteq> ?nm" and "\<exists>j<length (tasks s). ?L j \<and> ?N j = x" using held [of x] by auto
    then show "\<exists>j<length (tasks s). (j \<noteq> i \<and> ?L j) \<and> ?N j = x" by blast
  next
    assume "\<exists>j<length (tasks s). (j \<noteq> i \<and> ?L j) \<and> ?N j = x"
    then obtain j where j: "j < length (tasks s)" "j \<noteq> i" "?L j" "?N j = x" by blast
    then have "x \<in> locked s" using held [of x] by blast
    moreover have "x \<noteq> ?nm" using uniq [OF j(1) i j(3) li] j(2,4) by blast
    ultimately show "x \<in> locked s - {?nm}" by simp
  qed
  show ?thesis
    unfolding lock_inv_def
    apply (simp add: set_pc_simps set_pc_name ld cong: conj_cong)
    using u h by blast
qed

lemma lock_inv_step:
  assumes "lock_inv s"
  shows "lock_inv (step i s)"
proof (cases "i < length (tasks s)")
  case False
  then show ?thesis using assms by (simp add: step_out_of_range)
next
  case True
  then show ?thesis
  proof (cases rule: step_cases)
    case same
    then show ?thesis using assms by simp
  next
    case (move c)
    then show ?thesis using lock_inv_move [OF assms] by simp
  next
    case (acquire q)
    then show ?thesis using lock_inv_acquire [OF assms True] by simp
  next
    case (release q r m' w')
    then show ?thesis using lock_inv_release [OF assms True] by simp
  qed
qed

lemma lock_inv_run: "lock_inv s \<Longrightarrow> lock_inv (run evs s)"
proof (induction evs arbitrary: s)
  case Nil
  then show ?case by simp
next
  case (Cons ev evs)
  have "lock_inv (exec ev s)"
  proof (cases ev)
    case (Run i)
    then show ?thesis using lock_inv_step [OF Cons.prems] by simp
  next
    case (Tick d)
    then show ?thesis using Cons.prems by (simp add: lock_inv_def)
  qed
  then show ?case using Cons.IH by simp
qed

subsection \<open>No schedule gets stuck\<close>

lemma progress:
  assumes inv: "lock_inv s" and pos: "0 < todo s"
  shows "\<exists>i. todo (step i s) < todo s"
proof -
  have dec: "todo (step j s) < todo s"
    if j: "j < length (tasks s)" and ns: "step j s \<noteq> s \<or> is_loading (t_pc (tasks s ! j))" for j
    using j
  proof (cases rule: step_cases)
    case same
    with ns show ?thesis by (cases "t_pc (tasks s ! j)") auto
  next
    case (move c)
    then show ?thesis using todo_set_pc [OF j, of c] by simp
  next
    case (acquire q)
    then have "todo (step j s) = todo (set_pc j (Loading q) s)" by (simp add: todo_def)
    with acquire show ?thesis using todo_set_pc [OF j, of "Loading q"] by simp
  next
    case (release q r m' w')
    then have "todo (step j s) = todo (set_pc j (Done r) s)" by (simp add: todo_def)
    with release show ?thesis using todo_set_pc [OF j, of "Done r"] by simp
  qed
  from todo_pos [OF pos] obtain i where i: "i < length (tasks s)"
    and wi: "0 < weight (t_pc (tasks s ! i))" by blast
  from i show ?thesis
  proof (cases rule: step_cases)
    case same
    from wi have "\<not> is_done (t_pc (tasks s ! i))" by (cases "t_pc (tasks s ! i)") simp_all
    with same have "t_name (tasks s ! i) \<in> locked s" by blast
    with inv obtain h where "h < length (tasks s)" "is_loading (t_pc (tasks s ! h))"
      unfolding lock_inv_def by blast
    then have "todo (step h s) < todo s" using dec by blast
    then show ?thesis ..
  next
    case (move c)
    then have "step i s \<noteq> s \<or> is_loading (t_pc (tasks s ! i))"
      using todo_set_pc [OF i, of c] by auto
    from dec [OF i this] show ?thesis ..
  next
    case (acquire q)
    have "step i s \<noteq> s" using acquire(2,3) by (metis insertI1 loop_state.select_convs(3) loop_state.surjective loop_state.update_convs(3))
    then show ?thesis using dec [OF i] by blast
  next
    case (release q r m' w')
    then have "is_loading (t_pc (tasks s ! i))" by simp
    then show ?thesis using dec [OF i] by blast
  qed
qed

lemma callers_can_finish:
  assumes "lock_inv s"
  shows "\<exists>is. todo (run (map Run is) s) = 0"
  using assms
proof (induction "todo s" arbitrary: s rule: less_induct)
  case less
  show ?case
  proof (cases "todo s = 0")
    case True
    then have "todo (run (map Run []) s) = 0" by simp
    then show ?thesis by blast
  next
    case False
    then obtain i where i: "todo (step i s) < todo s"
      using progress [OF less.prems] by auto
    from less.hyps [OF i lock_inv_step [OF less.prems]]
    obtain js where "todo (run (map Run js) (step i s)) = 0" by blast
    then have "todo (run (map Run (i # js)) s) = 0" by simp
    then show ?thesis by blast
  qed
qed

subsection \<open>Callers of one name without refresh\<close>

lemma callers_set_pc:
  assumes "callers nm p s" and "pc_ok p c"
  shows "callers nm p (set_pc i c s)"
  using assms by (simp add: callers_def set_pc_simps set_pc_nth)

lemma callers_cong:
  assumes "callers nm p s" and "providers (manager s') = providers (manager s)"
    and "tasks s' = tasks s"
  shows "callers nm p s'"
  using assms by (simp add: callers_def)

lemma inv_callers: "single_flight_inv nm p base s \<Longrightarrow> callers nm p s"
  by (simp add: single_flight_inv_def)

lemma inv_cases:
  assumes "single_flight_inv nm p base s"
  obtains (before) "before_load nm base s"
    | (after) e where "after_load nm (base @ [name p]) e s"
  using assms by (auto simp: single_flight_inv_def)

lemma callers_task:
  "callers nm p s \<Longrightarrow> i < length (tasks s) \<Longrightarrow>
     t_name (tasks s ! i) = nm \<and> t_refresh (tasks s ! i) = False \<and> pc_ok p (t_pc (tasks s ! i))"
  by (simp add: callers_def)

lemma before_load_miss:
  "before_load nm base s \<Longrightarrow> cache_hit nm r (manager s) (world s) = None"
  by (simp add: before_load_def cache_hit_def)

lemma after_load_hit:
  "after_load nm lg e s \<Longrightarrow> entry_valid nm s
     \<Longrightarrow> cache_hit nm False (manager s) (world s) = Some (tools e)"
  by (simp add: after_load_def cache_hit_def entry_valid_def)

lemma before_load_set_wait:
  assumes "before_load nm base s" and "i < length (tasks s)" and "t_pc (tasks s ! i) = Start"
  shows "before_load nm base (set_pc i (WaitLock p) s)"
proof -
  have same: "is_loading (t_pc (tasks (set_pc i (WaitLock p) s) ! j)) = is_loading (t_pc (tasks s ! j))"
    "is_done (t_pc (tasks (set_pc i (WaitLock p) s) ! j)) = is_done (t_pc (tasks s ! j))"
    if "j < length (tasks s)" for j
    using that assms(3) by (auto simp: set_pc_nth)
  show ?thesis
    using assms(1) unfolding before_load_def by (simp add: set_pc_simps same cong: conj_cong)
qed

lemma after_load_set_done:
  assumes "after_load nm lg e s"
  shows "after_load nm lg e (set_pc i (Done (Inr (tools e))) s)"
  using assms unfolding after_load_def by (simp add: set_pc_simps set_pc_nth)

lemma before_load_set_loading:
  assumes "before_load nm base s" and "i < length (tasks s)" and "nm \<notin> locked s"
  shows "before_load nm base ((set_pc i (Loading p) s)\<lparr>locked := insert nm (locked s)\<rparr>)"
proof -
  let ?s' = "(set_pc i (Loading p) s)\<lparr>locked := insert nm (locked s)\<rparr>"
  from assms(1,3) have none: "\<not> is_loading (t_pc (tasks s ! j))" if "j < length (tasks s)" for j
    using that unfolding before_load_def by blast
  have nth: "is_loading (t_pc (tasks (set_pc i (Loading p) s) ! j)) = (j = i)"
    if "j < length (tasks s)" for j
    using that none [OF that] by (auto simp: set_pc_nth)
  from assms(1) have nodone: "\<not> is_done (t_pc (tasks s ! j))" if "j < length (tasks s)" for j
    using that unfolding before_load_def by blast
  have dn: "is_done (t_pc (tasks (set_pc i (Loading p) s) ! j)) = False"
    if "j < length (tasks s)" for j
    using that nodone [OF that] by (auto simp: set_pc_nth)
  have "\<exists>j<length (tasks s). j = i" using assms(2) by blast
  then show ?thesis
    using assms(1) unfolding before_load_def by (simp add: set_pc_simps nth dn cong: conj_cong)
qed


lemma after_load_store:
  assumes "before_load nm base s" and "i < length (tasks s)"
    and "is_loading (t_pc (tasks s ! i))"
    and "cache m' nm = Some e" and "tools e = ts" and "loads w' = lg"
  shows "after_load nm lg e
           ((set_pc i (Done (Inr ts)) s)\<lparr>manager := m', world := w', locked := locked s - {nm}\<rparr>)"
proof -
  let ?s' = "(set_pc i (Done (Inr ts)) s)\<lparr>manager := m', world := w', locked := locked s - {nm}\<rparr>"
  from assms(1) have nodone: "\<not> is_done (t_pc (tasks s ! j))" if "j < length (tasks s)" for j
    using that unfolding before_load_def by blast
  from assms(1,2,3) have only: "j = i" if "j < length (tasks s)" "is_loading (t_pc (tasks s ! j))" for j
    using that unfolding before_load_def by blast
  have "\<not> is_loading (t_pc (tasks (set_pc i (Done (Inr ts)) s) ! j))
          \<and> done_with (tools e) (t_pc (tasks (set_pc i (Done (Inr ts)) s) ! j))"
    if j: "j < length (tasks s)" for j
  proof (cases "j = i")
    case True
    then show ?thesis using j assms(5) by (simp add: set_pc_nth)
  next
    case False
    with only [OF j] have "\<not> is_loading (t_pc (tasks s ! j))" by blast
    moreover have "done_with (tools e) (t_pc (tasks s ! j))"
      using nodone [OF j] by (cases "t_pc (tasks s ! j)") simp_all
    ultimately show ?thesis using j False by (simp add: set_pc_nth)
  qed
  then show ?thesis
    using assms(4,6) unfolding after_load_def by (simp add: set_pc_simps)
qed


lemma after_load_no_loading:
  "after_load nm lg e s \<Longrightarrow> i < length (tasks s) \<Longrightarrow> \<not> is_loading (t_pc (tasks s ! i))"
  by (simp add: after_load_def)

lemma after_load_unlocked: "after_load nm lg e s \<Longrightarrow> nm \<notin> locked s"
  by (simp add: after_load_def)

lemma inv_return_cached:
  assumes inv: "single_flight_inv nm p base s"
    and after: "after_load nm (base @ [name p]) e s"
  shows "single_flight_inv nm p base (set_pc i (Done (Inr (tools e))) s)"
proof -
  have "callers nm p (set_pc i (Done (Inr (tools e))) s)"
    using inv_callers [OF inv] by (rule callers_set_pc) simp
  moreover have "after_load nm (base @ [name p]) e (set_pc i (Done (Inr (tools e))) s)"
    using after by (rule after_load_set_done)
  ultimately show ?thesis unfolding single_flight_inv_def by blast
qed

lemma inv_step:
  assumes inv: "single_flight_inv nm p base s" and ev: "entry_valid nm s"
    and ok: "\<forall>w. \<exists>ts w'. load p w = (Inr ts, w')"
  shows "single_flight_inv nm p base (step i s)"
proof (cases "i < length (tasks s)")
  case False
  then show ?thesis using inv by (simp add: step_out_of_range)
next
  case i: True
  note cs = inv_callers [OF inv]
  from callers_task [OF cs i]
  have nm: "t_name (tasks s ! i) = nm" and rf: "t_refresh (tasks s ! i) = False"
    and pok: "pc_ok p (t_pc (tasks s ! i))" by simp_all
  from cs have prov: "providers (manager s) (t_name (tasks s ! i)) = Some p"
    by (simp add: callers_def nm)
  show ?thesis
  proof (cases "t_pc (tasks s ! i)")
    case Start
    from inv show ?thesis
    proof (cases rule: inv_cases)
      case before
      have "step i s = set_pc i (WaitLock p) s"
        using i Start prov before_load_miss [OF before] by (simp add: step_Start_miss nm rf)
      moreover have "callers nm p (set_pc i (WaitLock p) s)"
        using cs by (rule callers_set_pc) simp
      moreover have "before_load nm base (set_pc i (WaitLock p) s)"
        using before i Start by (rule before_load_set_wait)
      ultimately show ?thesis unfolding single_flight_inv_def by simp
    next
      case (after e)
      have "step i s = set_pc i (Done (Inr (tools e))) s"
        using i Start prov after_load_hit [OF after ev] by (simp add: step_Start_hit nm rf)
      then show ?thesis using inv_return_cached [OF inv after] by simp
    qed
  next
    case (WaitLock q)
    with pok have q: "q = p" by simp
    from inv show ?thesis
    proof (cases rule: inv_cases)
      case before
      show ?thesis
      proof (cases "nm \<in> locked s")
        case True
        then have "step i s = s" using i WaitLock by (simp add: step_WaitLock_blocked nm)
        then show ?thesis using inv by simp
      next
        case False
        have "step i s = (set_pc i (Loading p) s)\<lparr>locked := insert nm (locked s)\<rparr>"
          using i WaitLock False before_load_miss [OF before] q
          by (simp add: step_WaitLock_miss nm rf)
        moreover have "callers nm p ((set_pc i (Loading p) s)\<lparr>locked := insert nm (locked s)\<rparr>)"
          by (rule callers_cong [OF callers_set_pc [OF cs, of "Loading p" i]]) simp_all
        moreover have "before_load nm base ((set_pc i (Loading p) s)\<lparr>locked := insert nm (locked s)\<rparr>)"
          using before i False by (rule before_load_set_loading)
        ultimately show ?thesis unfolding single_flight_inv_def by simp
      qed
    next
      case (after e)
      have "step i s = set_pc i (Done (Inr (tools e))) s"
        using i WaitLock after_load_unlocked [OF after] after_load_hit [OF after ev]
        by (simp add: step_WaitLock_hit nm rf)
      then show ?thesis using inv_return_cached [OF inv after] by simp
    qed
  next
    case (Loading q)
    with pok have q: "q = p" by simp
    from inv show ?thesis
    proof (cases rule: inv_cases)
      case before
      from ok obtain ts w' where ld: "load p (world s) = (Inr ts, w')" by blast
      define e where "e = \<lparr>tools = ts, expires_at = expiry (cache_ttl p) (now w')\<rparr>"
      define m' where "m' = (manager s)\<lparr>cache := (cache (manager s))(nm \<mapsto> e)\<rparr>"
      define s' where "s' = (set_pc i (Done (Inr ts)) s)\<lparr>manager := m', world := w', locked := locked s - {nm}\<rparr>"
      have "load_and_store nm p (manager s) (world s) = (Inr ts, m', w')"
        using load_and_store_ok [OF ld] by (simp add: m'_def e_def)
      then have st: "step i s = s'"
        using i Loading q by (simp add: step_Loading nm s'_def)
      have lg: "loads w' = base @ [name p]"
        using load_log [OF ld] before by (simp add: before_load_def)
      have "after_load nm (base @ [name p]) e s'"
        unfolding s'_def using before i
      proof (rule after_load_store)
        show "is_loading (t_pc (tasks s ! i))" using Loading by simp
        show "cache m' nm = Some e" by (simp add: m'_def)
        show "tools e = ts" by (simp add: e_def)
        show "loads w' = base @ [name p]" by (rule lg)
      qed
      moreover have "callers nm p s'"
        by (rule callers_cong [OF callers_set_pc [OF cs, of "Done (Inr ts)" i]])
          (simp_all add: s'_def m'_def set_pc_simps)
      ultimately show ?thesis unfolding single_flight_inv_def st by blast
    next
      case (after e)
      from after_load_no_loading [OF after i] Loading show ?thesis by simp
    qed
  next
    case (Done r)
    then have "step i s = s" using i by (simp add: step_Done)
    then show ?thesis using inv by simp
  qed
qed

lemma before_load_tick:
  "before_load nm base s \<Longrightarrow> before_load nm base (exec (Tick d) s)"
  by (simp add: before_load_def)

lemma after_load_tick:
  "after_load nm lg e s \<Longrightarrow> after_load nm lg e (exec (Tick d) s)"
  by (simp add: after_load_def)

lemma inv_tick:
  assumes "single_flight_inv nm p base s"
  shows "single_flight_inv nm p base (exec (Tick d) s)"
proof -
  have "callers nm p (exec (Tick d) s)"
    by (rule callers_cong [OF inv_callers [OF assms]]) simp_all
  with assms show ?thesis
    using before_load_tick after_load_tick unfolding single_flight_inv_def by blast
qed

lemma inv_run:
  assumes "single_flight_inv nm p base s" and "stays_valid nm evs s"
    and ok: "\<forall>w. \<exists>ts w'. load p w = (Inr ts, w')"
  shows "single_flight_inv nm p base (run evs s)"
  using assms(1,2)
proof (induction evs arbitrary: s)
  case Nil
  then show ?case by simp
next
  case (Cons ev evs)
  from Cons.prems(2) have ev: "entry_valid nm s" and rest: "stays_valid nm evs (exec ev s)"
    by simp_all
  have "single_flight_inv nm p base (exec ev s)"
  proof (cases ev)
    case (Run i)
    then show ?thesis using inv_step [OF Cons.prems(1) ev ok] by simp
  next
    case (Tick d)
    then show ?thesis using inv_tick [OF Cons.prems(1)] by simp
  qed
  from Cons.IH [OF this rest] show ?case by simp
qed

lemma inv_start:
  assumes "providers m nm = Some p" and "cache m nm = None"
  shows "single_flight_inv nm p (loads w) (start m w (replicate k (nm, False)))"
  using assms
  by (simp add: single_flight_inv_def callers_def before_load_def start_def)

lemma run_append: "run (xs @ ys) s = run ys (run xs s)"
  by (induction xs arbitrary: s) simp_all

lemma all_returned:
  assumes inv: "single_flight_inv nm p base s" and k: "0 < length (tasks s)"
    and fin: "None \<notin> set (results s)"
  shows "\<exists>ts. results s = replicate (length (tasks s)) (Some (Inr ts))
            \<and> loads (world s) = base @ [name p]"
proof -
  have some: "results s ! i \<noteq> None" if "i < length (tasks s)" for i
  proof -
    from that have "results s ! i \<in> set (results s)"
      by (intro nth_mem) (simp add: results_length)
    with fin show ?thesis by metis
  qed
  from inv show ?thesis
  proof (cases rule: inv_cases)
    case before
    from before_load_results [OF before k] some [OF k] show ?thesis by simp
  next
    case (after e)
    have "results s ! i = Some (Inr (tools e))" if "i < length (tasks s)" for i
      using after_load_results [OF after that] some [OF that] by auto
    then have "results s = replicate (length (tasks s)) (Some (Inr (tools e)))"
      by (simp add: list_eq_iff_nth_eq results_length)
    moreover have "loads (world s) = base @ [name p]"
      using after by (simp add: after_load_def)
    ultimately show ?thesis by blast
  qed
qed


text \<open>At most one element of a list has a property that no two positions share.\<close>

lemma filter_at_most_one:
  assumes "\<And>i j. i < length xs \<Longrightarrow> j < length xs \<Longrightarrow> P (xs ! i) \<Longrightarrow> P (xs ! j) \<Longrightarrow> i = j"
  shows "length (filter P xs) \<le> 1"
  using assms
proof (induction xs)
  case Nil
  then show ?case by simp
next
  case (Cons x xs)
  have tl: "i = j" if "i < length xs" "j < length xs" "P (xs ! i)" "P (xs ! j)" for i j
    using Cons.prems [of "Suc i" "Suc j"] that by simp
  show ?case
  proof (cases "P x")
    case True
    have "\<not> P y" if "y \<in> set xs" for y
    proof
      assume "P y"
      from that obtain i where "i < length xs" "xs ! i = y" by (auto simp: in_set_conv_nth)
      with \<open>P y\<close> True Cons.prems [of 0 "Suc i"] show False by simp
    qed
    then have "filter P xs = []" by (simp add: filter_empty_conv)
    with True show ?thesis by simp
  next
    case False
    with Cons.IH [OF tl] show ?thesis by simp
  qed
qed

lemma lock_inv_in_flight: "lock_inv s \<Longrightarrow> in_flight s nm \<le> 1"
  unfolding in_flight_def lock_inv_def by (rule filter_at_most_one) blast

text \<open>
  C1, as the code has it. \<open>k\<close> callers ask for the same registered, uncached name without
  refresh; the provider's load succeeds in whatever world it runs; the entry it stores stays
  valid in every state the schedule goes through. Then, once all callers have returned, each
  of them has received the same list and the load has been executed exactly once. Moreover,
  whatever the calls and the schedule are, at most one load of a name is in flight at any
  time, and the schedule can be continued by steps of the tasks until all callers have
  returned.
\<close>

theorem concurrent_callers_share_one_load:
  "(providers m nm = Some p \<and> cache m nm = None \<and> (\<forall>w. \<exists>ts w'. load p w = (Inr ts, w'))
      \<and> 0 < k \<and> stays_valid nm evs (start m w (replicate k (nm, False)))
      \<and> None \<notin> set (results (run evs (start m w (replicate k (nm, False))))) \<longrightarrow>
      (\<exists>ts. results (run evs (start m w (replicate k (nm, False))))
               = replicate k (Some (Inr ts))
          \<and> loads (world (run evs (start m w (replicate k (nm, False)))))
               = loads w @ [name p])) \<and>
   in_flight (run evs (start m w calls)) nm \<le> 1 \<and>
   (\<exists>is. None \<notin> set (results (run (evs @ map Run is) (start m w calls))))"
proof -
  have one: "\<exists>ts. results (run evs (start m w (replicate k (nm, False))))
               = replicate k (Some (Inr ts))
          \<and> loads (world (run evs (start m w (replicate k (nm, False)))))
               = loads w @ [name p]"
    if reg: "providers m nm = Some p" and uncached: "cache m nm = None"
      and ok: "\<forall>w. \<exists>ts w'. load p w = (Inr ts, w')" and k: "0 < k"
      and sv: "stays_valid nm evs (start m w (replicate k (nm, False)))"
      and fin: "None \<notin> set (results (run evs (start m w (replicate k (nm, False)))))"
  proof -
    let ?s = "run evs (start m w (replicate k (nm, False)))"
    have len: "length (tasks ?s) = k" by (simp add: run_length start_def)
    have "single_flight_inv nm p (loads w) ?s"
      using inv_start [OF reg uncached] sv ok by (rule inv_run)
    from all_returned [OF this _ fin] k len show ?thesis by simp
  qed
  have lock: "lock_inv (run evs (start m w calls))"
    by (rule lock_inv_run [OF lock_inv_start])
  from callers_can_finish [OF lock] obtain js
    where "todo (run (map Run js) (run evs (start m w calls))) = 0" by blast
  then have "None \<notin> set (results (run (evs @ map Run js) (start m w calls)))"
    unfolding run_append by (rule todo_zero)
  then have "\<exists>is. None \<notin> set (results (run (evs @ map Run is) (start m w calls)))" ..
  with one lock_inv_in_flight [OF lock, of nm] show ?thesis by blast
qed

lemma two_tools_loads: "\<forall>w. \<exists>ts w'. load (local_provider ttl) w = (Inr ts, w')"
  by (simp add: load_def local_provider_def two_tools_def)

theorem concurrent_callers_share_one_load_witness:
  "results (run [Run 0, Run 1, Run 0, Tick 1, Run 2, Run 1, Run 0, Run 2, Run 1, Run 2]
              (start (manager_with (local_provider (Some (Fin 60)))) world0
                 (replicate 3 (''local'', False))))
     = replicate 3 (Some (Inr [''search'', ''fetch''])) \<and>
   loads (world (run [Run 0, Run 1, Run 0, Tick 1, Run 2, Run 1, Run 0, Run 2, Run 1, Run 2]
              (start (manager_with (local_provider (Some (Fin 60)))) world0
                 (replicate 3 (''local'', False)))))
     = [''local'']"
proof -
  let ?evs = "[Run 0, Run 1, Run 0, Tick 1, Run 2, Run 1, Run 0, Run 2, Run 1, Run 2]"
  let ?m = "manager_with (local_provider (Some (Fin 60)))"
  let ?s = "run ?evs (start ?m world0 (replicate 3 (''local'', False)))"
  have reg: "providers ?m ''local'' = Some (local_provider (Some (Fin 60)))"
    by (simp add: manager_with_def local_provider_def)
  have uncached: "cache ?m ''local'' = None" by (simp add: manager_with_def)
  have sv: "stays_valid ''local'' ?evs (start ?m world0 (replicate 3 (''local'', False)))"
    by code_simp
  have res: "results ?s = replicate 3 (Some (Inr [''search'', ''fetch'']))" by code_simp
  then have fin: "None \<notin> set (results ?s)" by simp
  have "0 < (3::nat)" by simp
  with concurrent_callers_share_one_load
         [of ?m "''local''" "local_provider (Some (Fin 60))" 3 ?evs world0]
       reg uncached two_tools_loads sv fin
  obtain ts where "results ?s = replicate 3 (Some (Inr ts))"
    and "loads (world ?s) = loads world0 @ [name (local_provider (Some (Fin 60)))]" by blast
  then show ?thesis using res by (simp add: world0_def local_provider_def)
qed

text \<open>
  C1 as stated fails for callers that force a refresh, and for a load that raises: the test
  at line 178 is skipped by \<^verbatim>\<open>refresh\<close>, and a failed load stores nothing, so each caller
  in turn takes the lock and executes a load of its own. Two refreshing callers execute two
  loads; two callers of a builder that raises get two loads and, when the builder's error
  differs from call to call, two different errors. It also fails when the stored entry
  expires before a waiting caller tests the cache: with a TTL of one second and two seconds
  passing, two callers without refresh execute two loads.
\<close>

theorem refreshing_callers_each_load:
  "results (run [Run 0, Run 0, Run 1, Tick 1, Run 0, Run 1, Run 1]
              (start (manager_with (local_provider None)) world0 [(''local'', True), (''local'', True)]))
     = [Some (Inr [''search'', ''fetch'']), Some (Inr [''search'', ''fetch''])] \<and>
   loads (world (run [Run 0, Run 0, Run 1, Tick 1, Run 0, Run 1, Run 1]
              (start (manager_with (local_provider None)) world0 [(''local'', True), (''local'', True)])))
     = [''local'', ''local''] \<and>
   results (run [Run 0, Run 0, Run 1, Run 0, Run 1, Run 1]
              (start (manager_with (CallableToolProvider ''flaky'' [] [] None counting))
                 \<lparr>now = 100, settings = \<lparr>dashscope_api_key = [], amap_maps_api_key = []\<rparr>,
                  home = [], loads = [], ext = 0\<rparr>
                 [(''flaky'', False), (''flaky'', False)]))
     = [Some (Inl (PyException [])), Some (Inl (PyException ''I''))] \<and>
   loads (world (run [Run 0, Run 0, Run 1, Run 0, Tick 2, Run 1, Run 1]
              (start (manager_with (local_provider (Some (Fin 1)))) world0
                 [(''local'', False), (''local'', False)])))
     = [''local'', ''local'']"
  by code_simp

end
